theory Spec2Isabelle
  imports Complex_Main "HOL-Library.Word" "HOL-Library.Sublist" "HOL-Library.Monad_Syntax"
begin

section \<open>JavaScript strings\<close>

text \<open>
  A JavaScript string is a sequence of 16-bit code units. The helper \<open>str\<close> turns an
  ASCII literal into such a sequence.
\<close>

type_synonym jschar = "16 word"
type_synonym jsstring = "jschar list"

definition str :: "string \<Rightarrow> jsstring" where
  "str s = map of_char s"

text \<open>\<open>s.substring(a, b)\<close>: both ends are clamped to the string and swapped when out of order.\<close>

definition substring :: "jsstring \<Rightarrow> nat \<Rightarrow> nat \<Rightarrow> jsstring" where
  "substring s a b = take (max a b - min a b) (drop (min a b) s)"

text \<open>\<open>s.substring(a)\<close>.\<close>

definition substringFrom :: "jsstring \<Rightarrow> nat \<Rightarrow> jsstring" where
  "substringFrom s a = drop a s"

text \<open>\<open>s.startsWith(p)\<close>.\<close>

definition startsWith :: "jsstring \<Rightarrow> jsstring \<Rightarrow> bool" where
  "startsWith s p = (take (length p) s = p)"

text \<open>
  The ECMAScript character classes used by the program: line terminators (what \<open>.\<close>
  does not match) and white space (\<open>\s\<close>, also what \<open>trim\<close> removes).
\<close>

definition isLineTerminator :: "jschar \<Rightarrow> bool" where
  "isLineTerminator c = (c = 0x0A \<or> c = 0x0D \<or> c = 0x2028 \<or> c = 0x2029)"

definition isSpace :: "jschar \<Rightarrow> bool" where
  "isSpace c = (c = 0x09 \<or> c = 0x0A \<or> c = 0x0B \<or> c = 0x0C \<or> c = 0x0D \<or> c = 0x20
      \<or> c = 0xA0 \<or> c = 0x1680 \<or> (0x2000 \<le> c \<and> c \<le> 0x200A) \<or> c = 0x2028 \<or> c = 0x2029
      \<or> c = 0x202F \<or> c = 0x205F \<or> c = 0x3000 \<or> c = 0xFEFF)"

section \<open>The tokenizer's regular expression\<close>

text \<open>
  \<open>/(\*\*.*?\*\*|https?:\/\/[^\s]+)/g\<close>. The matcher below follows the backtracking
  semantics of ECMAScript on this expression. \<open>lazyDot r\<close> is \<open>.*?\*\*\<close> on the text
  \<open>r\<close> after the opening delimiter: it returns the number of characters \<open>.*?\<close> takes,
  the least number after which \<open>**\<close> follows; \<open>.\<close> refuses a line terminator.
\<close>

fun lazyDot :: "jsstring \<Rightarrow> nat option" where
  "lazyDot [] = None"
| "lazyDot (c # r) =
     (if startsWith (c # r) (str ''**'') then Some 0
      else if isLineTerminator c then None
      else map_option Suc (lazyDot r))"

text \<open>The first alternative at the start of \<open>s\<close>: the length of the match.\<close>

definition matchBold :: "jsstring \<Rightarrow> nat option" where
  "matchBold s =
     (if startsWith s (str ''**'') then map_option (\<lambda>k. k + 4) (lazyDot (drop 2 s))
      else None)"

text \<open>
  The second alternative at the start of \<open>s\<close>: \<open>http\<close>, an optional \<open>s\<close>, \<open>://\<close>, then
  the longest non-empty run of non-white-space characters.
\<close>

definition matchUrl :: "jsstring \<Rightarrow> nat option" where
  "matchUrl s =
     (let scheme = (if startsWith s (str ''https://'') then Some 8
                    else if startsWith s (str ''http://'') then Some 7
                    else None)
      in case scheme of
           None \<Rightarrow> None
         | Some n \<Rightarrow>
             (let k = length (takeWhile (\<lambda>c. \<not> isSpace c) (drop n s))
              in if k = 0 then None else Some (n + k)))"

definition matchHere :: "jsstring \<Rightarrow> nat option" where
  "matchHere s = (case matchBold s of Some n \<Rightarrow> Some n | None \<Rightarrow> matchUrl s)"

text \<open>
  The search for the leftmost match: \<open>scan s i\<close> tries the expression at the start of
  \<open>s\<close>, which is the text of the line from index \<open>i\<close>, and moves on by one character
  when it fails. It returns the index and the length of the match.
\<close>

fun scan :: "jsstring \<Rightarrow> nat \<Rightarrow> (nat \<times> nat) option" where
  "scan [] i = (case matchHere [] of Some n \<Rightarrow> Some (i, n) | None \<Rightarrow> None)"
| "scan (c # r) i =
     (case matchHere (c # r) of Some n \<Rightarrow> Some (i, n) | None \<Rightarrow> scan r (Suc i))"

text \<open>
  \<open>regex.exec(line)\<close> with \<open>regex.lastIndex = lastIndex\<close>: \<open>None\<close> is \<open>null\<close>, otherwise
  \<open>match.index\<close> and \<open>match[0]\<close>; the new \<open>regex.lastIndex\<close> is the end of the match.
\<close>

definition regexExec :: "jsstring \<Rightarrow> nat \<Rightarrow> (nat \<times> jsstring) option" where
  "regexExec line lastIndex =
     (if lastIndex > length line then None
      else map_option (\<lambda>(i, n). (i, substring line i (i + n)))
             (scan (drop lastIndex line) lastIndex))"

section \<open>The inline tokenizer\<close>

record token =
  ttext :: jsstring
  isBold :: bool
  isLink :: bool
  url :: "jsstring option"

lemma startsWith_length: "startsWith s p \<Longrightarrow> length p \<le> length s"
proof -
  assume "startsWith s p"
  then have "length (take (length p) s) = length p"
    by (simp add: startsWith_def)
  then show ?thesis by simp
qed

lemma str_length [simp]: "length (str s) = length s"
  by (simp add: str_def)

lemma lazyDot_bound: "lazyDot r = Some k \<Longrightarrow> k + 2 \<le> length r"
proof (induction r arbitrary: k)
  case Nil
  then show ?case by simp
next
  case (Cons c r)
  show ?case
  proof (cases "startsWith (c # r) (str ''**'')")
    case True
    then have "2 \<le> length (c # r)"
      by (auto dest: startsWith_length)
    with True Cons.prems show ?thesis by simp
  next
    case False
    with Cons.prems obtain k' where "lazyDot r = Some k'" "k = Suc k'"
      by (auto split: if_splits)
    with Cons.IH show ?thesis by fastforce
  qed
qed

lemma matchBold_bound: "matchBold s = Some n \<Longrightarrow> 4 \<le> n \<and> n \<le> length s"
  by (auto simp: matchBold_def split: if_splits dest!: lazyDot_bound)

lemma matchUrl_bound: "matchUrl s = Some n \<Longrightarrow> 4 \<le> n \<and> n \<le> length s"
proof -
  assume a: "matchUrl s = Some n"
  have tw: "length (takeWhile P (drop m s)) \<le> length s - m" for P m
    using length_takeWhile_le [of P "drop m s"] by simp
  have l8: "startsWith s (str ''https://'') \<Longrightarrow> 8 \<le> length s"
    by (auto dest: startsWith_length)
  have l7: "startsWith s (str ''http://'') \<Longrightarrow> 7 \<le> length s"
    by (auto dest: startsWith_length)
  from a show ?thesis
    using tw [of "\<lambda>c. \<not> isSpace c" 8] tw [of "\<lambda>c. \<not> isSpace c" 7] l8 l7
    by (auto simp: matchUrl_def Let_def split: if_splits)
qed

lemma matchHere_bound: "matchHere s = Some n \<Longrightarrow> 4 \<le> n \<and> n \<le> length s"
  by (auto simp: matchHere_def split: option.splits dest: matchBold_bound matchUrl_bound)

lemma scan_bounds:
  "scan s i = Some (j, n) \<Longrightarrow>
     i \<le> j \<and> 4 \<le> n \<and> j + n \<le> i + length s \<and> matchHere (drop (j - i) s) = Some n"
proof (induction s arbitrary: i)
  case Nil
  then show ?case by (auto split: option.splits dest: matchHere_bound)
next
  case (Cons c r)
  show ?case
  proof (cases "matchHere (c # r)")
    case (Some m)
    with Cons.prems matchHere_bound [OF Some] show ?thesis by auto
  next
    case None
    with Cons.prems have "scan r (Suc i) = Some (j, n)" by simp
    from Cons.IH [OF this] have b: "Suc i \<le> j" "4 \<le> n" "j + n \<le> Suc i + length r"
      and mh: "matchHere (drop (j - Suc i) r) = Some n" by auto
    from b have "j - i = Suc (j - Suc i)" by simp
    with b mh show ?thesis by simp
  qed
qed

lemma regexExec_bounds:
  assumes "regexExec line lastIndex = Some (index, m)"
  shows "lastIndex \<le> index" and "4 \<le> length m" and "index + length m \<le> length line"
    and "m = take (length m) (drop index line)"
    and "matchHere (drop index line) = Some (length m)"
proof -
  from assms obtain n where le: "lastIndex \<le> length line"
    and sc: "scan (drop lastIndex line) lastIndex = Some (index, n)"
    and m: "m = substring line index (index + n)"
    by (auto simp: regexExec_def split: if_splits)
  from scan_bounds [OF sc] le
  have b: "lastIndex \<le> index" "4 \<le> n" "index + n \<le> length line"
    and mh: "matchHere (drop (index - lastIndex) (drop lastIndex line)) = Some n"
    by auto
  from m b have len: "length m = n" by (simp add: substring_def)
  show "lastIndex \<le> index" by (rule b)
  show "4 \<le> length m" using b len by simp
  show "index + length m \<le> length line" using b len by simp
  show "m = take (length m) (drop index line)" using m len by (simp add: substring_def)
  show "matchHere (drop index line) = Some (length m)" using mh b len by simp
qed

function tokenizeLine :: "jsstring \<Rightarrow> token list"
  and tokenizeLoop :: "jsstring \<Rightarrow> nat \<Rightarrow> token list \<Rightarrow> token list" where
  "tokenizeLine line = tokenizeLoop line 0 []"
| "tokenizeLoop line lastIndex tokens =
     (case regexExec line lastIndex of
        None \<Rightarrow>
          (if lastIndex < length line
           then tokens @ [\<lparr>ttext = substringFrom line lastIndex, isBold = False, isLink = False, url = None\<rparr>]
           else tokens)
      | Some (index, matchedText) \<Rightarrow>
          (let tokens1 =
                 (if index > lastIndex
                  then tokens @ [\<lparr>ttext = substring line lastIndex index, isBold = False, isLink = False, url = None\<rparr>]
                  else tokens);
               tokens2 =
                 (if startsWith matchedText (str ''http'')
                  then tokens1 @ [\<lparr>ttext = matchedText, isBold = False, isLink = True, url = Some matchedText\<rparr>]
                  else (let innerText = substring matchedText 2 (length matchedText - 2);
                            innerTokens = tokenizeLine innerText
                        in tokens1 @ map (\<lambda>token. token\<lparr>isBold := True\<rparr>) innerTokens))
           in tokenizeLoop line (index + length matchedText) tokens2))"
  by pat_completeness auto
termination
proof (relation "measures
    [\<lambda>x. case x of Inl line \<Rightarrow> length line | Inr (line, _, _) \<Rightarrow> length line,
     \<lambda>x. case x of Inl line \<Rightarrow> Suc (length line) | Inr (line, lastIndex, _) \<Rightarrow> length line - lastIndex]",
    goal_cases)
  case 1
  show ?case by simp
next
  case 2
  show ?case by simp
next
  case (3 line lastIndex tokens x2 index matchedText tokens1 innerText)
  then have "regexExec line lastIndex = Some (index, matchedText)" by simp
  from regexExec_bounds(2,3) [OF this]
  have "length (substring matchedText 2 (length matchedText - 2)) < length line"
    by (simp add: substring_def)
  with 3 show ?case by simp
next
  case (4 line lastIndex tokens x2 index matchedText)
  then have "regexExec line lastIndex = Some (index, matchedText)" by simp
  from regexExec_bounds(1,2,3) [OF this] show ?case
    by simp
qed

declare tokenizeLoop.simps [simp del]
declare tokenizeLine.simps [simp del]


section \<open>More string and array operations\<close>

text \<open>\<open>s.trim()\<close>.\<close>

definition trim :: "jsstring \<Rightarrow> jsstring" where
  "trim s = rev (dropWhile isSpace (rev (dropWhile isSpace s)))"

text \<open>\<open>s.split(sep)\<close> for a separator of one character; the result is never empty.\<close>

fun split :: "jsstring \<Rightarrow> jschar \<Rightarrow> jsstring list" where
  "split [] sep = [[]]"
| "split (c # s) sep =
     (if c = sep then [] # split s sep
      else (case split s sep of [] \<Rightarrow> [[c]] | f # fs \<Rightarrow> (c # f) # fs))"

text \<open>\<open>xs.slice(a, b)\<close> and \<open>xs.slice(a)\<close>: a negative index counts from the end.\<close>

definition sliceIndex :: "nat \<Rightarrow> int \<Rightarrow> nat" where
  "sliceIndex n a = (if a < 0 then nat (max (int n + a) 0) else min (nat a) n)"

definition slice :: "'a list \<Rightarrow> int \<Rightarrow> int \<Rightarrow> 'a list" where
  "slice xs a b =
     (let k = sliceIndex (length xs) a; e = sliceIndex (length xs) b
      in take (e - k) (drop k xs))"

definition sliceFrom :: "'a list \<Rightarrow> int \<Rightarrow> 'a list" where
  "sliceFrom xs a = drop (sliceIndex (length xs) a) xs"

text \<open>The decimal digits of a number, as a template literal prints it.\<close>

function showNat :: "nat \<Rightarrow> jsstring" where
  "showNat n = (if n < 10 then [48 + of_nat n] else showNat (n div 10) @ [48 + of_nat (n mod 10)])"
  by pat_completeness auto
termination
  by (relation "measure id") auto

declare showNat.simps [simp del]

text \<open>\<open>/https?:\/\//.test(s)\<close>: the scheme occurs somewhere in \<open>s\<close>.\<close>

fun hasUrlScheme :: "jsstring \<Rightarrow> bool" where
  "hasUrlScheme [] = False"
| "hasUrlScheme (c # s) =
     (startsWith (c # s) (str ''https://'') \<or> startsWith (c # s) (str ''http://'')
      \<or> hasUrlScheme s)"

section \<open>The document and the facilities\<close>

text \<open>
  The state of the jsPDF document as far as the program observes it: the current font
  size, weight and colour, the pages, and what has been drawn, each item with its page.
  A number of the program is an IEEE double; every finite double is a rational, and
  the numbers here are rationals. The source's arithmetic rounds: see \<open>jsAdd\<close> below.
\<close>

datatype fontStyle = Normal | Bold | Italic

datatype drawOp =
    DrawText jsstring rat rat
  | DrawTextMaxWidth jsstring rat rat rat
  | DrawTextCentered jsstring rat rat
  | DrawLink jsstring rat rat jsstring
  | DrawCellDefault jsstring

record jsPDF =
  fontSize :: rat
  fontStyle :: fontStyle
  textColor :: "nat \<times> nat \<times> nat"
  numberOfPages :: nat
  currentPage :: nat
  drawn :: "(nat \<times> drawOp) list"

datatype exn = TypeError | FacilityError nat

text \<open>The box of a table cell, as the table facility reports it to the hooks.\<close>

record cellBox =
  cellX :: rat
  cellY :: rat
  cellWidth :: rat
  padLeft :: rat
  padTop :: rat
  padHorizontal :: rat

record tableLayout =
  boxOf :: "nat \<Rightarrow> nat \<Rightarrow> cellBox"
  finalY :: rat

text \<open>
  What the program takes from jsPDF, jspdf-autotable and the host, none of it code of
  the repository: the measurement of a string at a font size and weight, the page size,
  the line splitter, the geometry the table facility computes for a header and a body
  from a start position (or the exception it throws), and \<open>toUpperCase\<close>; and the
  rounding of the host's arithmetic: \<open>roundNumber\<close> takes the exact result of an
  operation to the number the machine gives (for doubles, the nearest double). Nothing
  is assumed of it, so what is proved holds for every rounding; overflow is left out.
\<close>

record facility =
  getTextWidth :: "rat \<Rightarrow> fontStyle \<Rightarrow> jsstring \<Rightarrow> rat"
  pageWidth :: rat
  pageHeight :: rat
  splitTextToSize :: "rat \<Rightarrow> fontStyle \<Rightarrow> jsstring \<Rightarrow> rat \<Rightarrow> jsstring list"
  autoTableLayout :: "jsstring list list \<Rightarrow> jsstring list list \<Rightarrow> rat \<Rightarrow> exn + tableLayout"
  toUpperCase :: "jsstring \<Rightarrow> jsstring"
  roundNumber :: "rat \<Rightarrow> rat"

text \<open>The source's \<open>a + b\<close>, \<open>a - b\<close>, \<open>a * b\<close> and \<open>a / b\<close> on numbers.\<close>

definition jsAdd :: "facility \<Rightarrow> rat \<Rightarrow> rat \<Rightarrow> rat" where
  "jsAdd F a b = roundNumber F (a + b)"

definition jsSub :: "facility \<Rightarrow> rat \<Rightarrow> rat \<Rightarrow> rat" where
  "jsSub F a b = roundNumber F (a - b)"

definition jsMul :: "facility \<Rightarrow> rat \<Rightarrow> rat \<Rightarrow> rat" where
  "jsMul F a b = roundNumber F (a * b)"

definition jsDiv :: "facility \<Rightarrow> rat \<Rightarrow> rat \<Rightarrow> rat" where
  "jsDiv F a b = roundNumber F (a / b)"

definition newDoc :: jsPDF where
  "newDoc = \<lparr>fontSize = 16, fontStyle = Normal, textColor = (0, 0, 0),
             numberOfPages = 1, currentPage = 1, drawn = []\<rparr>"

definition docText :: "drawOp \<Rightarrow> jsPDF \<Rightarrow> jsPDF" where
  "docText op d = d\<lparr>drawn := drawn d @ [(currentPage d, op)]\<rparr>"

definition addPage :: "jsPDF \<Rightarrow> jsPDF" where
  "addPage d = d\<lparr>numberOfPages := numberOfPages d + 1, currentPage := numberOfPages d + 1\<rparr>"

definition measureText :: "facility \<Rightarrow> jsPDF \<Rightarrow> jsstring \<Rightarrow> rat" where
  "measureText F d s = getTextWidth F (fontSize d) (fontStyle d) s"

section \<open>The layout state and the page break\<close>

text \<open>The variables of \<open>downloadAsPdf\<close> that its nested functions share.\<close>

record layout =
  doc :: jsPDF
  y :: rat
  tableLines :: "jsstring list"
  inTable :: bool

definition leftMargin :: rat where "leftMargin = 15"
definition topMargin :: rat where "topMargin = 20"
definition lineHeight :: rat where "lineHeight = 5"

definition contentWidth :: "facility \<Rightarrow> rat" where
  "contentWidth F = jsSub F (pageWidth F) (jsMul F leftMargin 2)"

definition checkPageBreak :: "facility \<Rightarrow> rat \<Rightarrow> layout \<Rightarrow> layout" where
  "checkPageBreak F spaceNeeded st =
     (if jsAdd F (y st) spaceNeeded > jsSub F (pageHeight F) 15
      then st\<lparr>doc := addPage (doc st), y := topMargin\<rparr>
      else st)"

section \<open>The wrapping renderer\<close>

text \<open>
  \<open>while (doc.getTextWidth(remainingText.substring(0, i)) > budget) { i--; }\<close>.
  The index is an integer: below zero \<open>substring\<close> clamps it to zero, and the loop
  goes on. A loop that never ends has the value \<open>None\<close>.
\<close>

partial_function (option) shrink :: "(jsstring \<Rightarrow> rat) \<Rightarrow> rat \<Rightarrow> jsstring \<Rightarrow> int \<Rightarrow> int option" where
  "shrink w budget s i =
     (if w (substring s 0 (nat i)) > budget then shrink w budget s (i - 1) else Some i)"

text \<open>
  \<open>while (remainingText.length > 0) { ... }\<close> for one token; the state of the loop is
  the remaining text, \<open>currentX\<close>, \<open>currentY\<close> and the shared variables.
\<close>

partial_function (option) printLoop ::
  "facility \<Rightarrow> token \<Rightarrow> rat \<Rightarrow> rat \<Rightarrow> jsstring \<Rightarrow> rat \<Rightarrow> rat \<Rightarrow> layout \<Rightarrow> (rat \<times> rat \<times> layout) option" where
  "printLoop F token x maxWidth remainingText currentX currentY st =
     (if length remainingText > 0 then
        do {
          i \<leftarrow> shrink (measureText F (doc st)) (jsSub F (jsAdd F x maxWidth) currentX) remainingText
                 (int (length remainingText));
          (i1, currentX1, currentY1, st1) \<leftarrow>
             (if i = 0 \<and> currentX > x then
                do {
                  let currentY' = jsAdd F currentY lineHeight;
                  let st' = checkPageBreak F lineHeight st;
                  i' \<leftarrow> shrink (measureText F (doc st')) maxWidth remainingText
                         (int (length remainingText));
                  Some (i', x, currentY', st')
                }
              else Some (i, currentX, currentY, st));
          let i2 = (if i1 = 0 \<and> length remainingText > 0 then 1 else i1);
          let textToPrint = substring remainingText 0 (nat i2);
          let st2 =
            (if isLink token
             then st1\<lparr>doc := docText (DrawLink textToPrint currentX1 currentY1
                                  (case url token of Some u \<Rightarrow> if u = [] then textToPrint else u
                                   | None \<Rightarrow> textToPrint)) (doc st1)\<rparr>
             else st1\<lparr>doc := docText (DrawText textToPrint currentX1 currentY1) (doc st1)\<rparr>);
          let currentX2 = jsAdd F currentX1 (measureText F (doc st2) textToPrint);
          printLoop F token x maxWidth (substringFrom remainingText (nat i2)) currentX2 currentY1 st2
        }
      else Some (currentX, currentY, st))"

declare shrink.simps [code]
declare printLoop.simps [code]

text \<open>\<open>tokens.forEach(token => { ... })\<close>.\<close>

fun renderTokens ::
  "facility \<Rightarrow> rat \<Rightarrow> rat \<Rightarrow> token list \<Rightarrow> rat \<Rightarrow> rat \<Rightarrow> layout \<Rightarrow> (rat \<times> rat \<times> layout) option" where
  "renderTokens F x maxWidth [] currentX currentY st = Some (currentX, currentY, st)"
| "renderTokens F x maxWidth (token # rest) currentX currentY st =
     do {
       let st1 = st\<lparr>doc := (doc st)\<lparr>fontStyle := (if isBold token then Bold else Normal)\<rparr>\<rparr>;
       let st2 = (if isLink token then st1\<lparr>doc := (doc st1)\<lparr>textColor := (41, 102, 194)\<rparr>\<rparr> else st1);
       (currentX', currentY', st3) \<leftarrow> printLoop F token x maxWidth (ttext token) currentX currentY st2;
       let st4 = (if isLink token then st3\<lparr>doc := (doc st3)\<lparr>textColor := (51, 51, 51)\<rparr>\<rparr> else st3);
       renderTokens F x maxWidth rest currentX' currentY' st4
     }"

text \<open>\<open>renderFormattedLine\<close> returns the new vertical position and the changed state.\<close>

definition renderFormattedLine ::
  "facility \<Rightarrow> jsstring \<Rightarrow> rat \<Rightarrow> rat \<Rightarrow> rat \<Rightarrow> layout \<Rightarrow> (rat \<times> layout) option" where
  "renderFormattedLine F line x currentY maxWidth st =
     do {
       let originalFontSize = fontSize (doc st);
       let st1 = st\<lparr>doc := (doc st)\<lparr>fontSize := 10\<rparr>\<rparr>;
       let tokens = tokenizeLine line;
       (currentX', currentY', st2) \<leftarrow> renderTokens F x maxWidth tokens x currentY st1;
       let st3 = st2\<lparr>doc := (doc st2)\<lparr>fontSize := originalFontSize\<rparr>\<rparr>;
       let st4 = st3\<lparr>doc := (doc st3)\<lparr>fontStyle := Normal\<rparr>\<rparr>;
       Some (jsAdd F currentY' lineHeight, st4)
     }"

section \<open>The table renderer\<close>

text \<open>One row of a pipe table: \<open>row.split('|').slice(1, -1).map(cell => cell.trim())\<close>.\<close>

definition parseRow :: "jsstring \<Rightarrow> jsstring list" where
  "parseRow row = map trim (slice (split row (of_char CHR ''|'')) 1 (- 1))"

text \<open>
  The header and the body computed at the start of \<open>renderTable\<close>. Reading
  \<open>tableLines[0]\<close> of an empty buffer gives \<open>undefined\<close>, and \<open>split\<close> on it
  throws a TypeError.
\<close>

definition tableHead :: "jsstring list \<Rightarrow> exn + jsstring list list" where
  "tableHead tls = (case tls of [] \<Rightarrow> Inl TypeError | l0 # _ \<Rightarrow> Inr [parseRow l0])"

definition tableBody :: "jsstring list \<Rightarrow> jsstring list list" where
  "tableBody tls = map parseRow (sliceFrom tls 2)"

text \<open>
  The two hooks \<open>renderTable\<close> hands to the table facility. \<open>willDrawCell\<close> returns
  \<open>false\<close> (here \<open>Some False\<close>) or nothing; every cell of this program is a string.
\<close>

definition willDrawCell :: "jsstring \<Rightarrow> bool option" where
  "willDrawCell cellText = (if hasUrlScheme cellText then Some False else None)"

definition didDrawCell :: "facility \<Rightarrow> jsstring \<Rightarrow> cellBox \<Rightarrow> layout \<Rightarrow> layout option" where
  "didDrawCell F cellText cell st =
     (if hasUrlScheme cellText then
        do {
          let x = jsAdd F (cellX cell) (padLeft cell);
          let currentY = jsAdd F (jsAdd F (cellY cell) (padTop cell)) 3;
          let maxWidth = jsSub F (cellWidth cell) (padHorizontal cell);
          (_, st') \<leftarrow> renderFormattedLine F cellText x currentY maxWidth st;
          Some st'
        }
      else Some st)"

text \<open>
  Modelled from the spec: the table-layout facility (\<open>autoTable\<close> of jspdf-autotable),
  which is not code of the repository. For each cell, header row first, it calls the
  will-draw hook, draws the cell's text by its default path unless the hook returned
  \<open>false\<close>, and calls the did-draw hook once the box of the cell is known. Its grid,
  its own fonts and its own page splitting are left out.
\<close>

definition autoTableCell ::
  "(jsstring \<Rightarrow> bool option) \<Rightarrow> (jsstring \<Rightarrow> cellBox \<Rightarrow> layout \<Rightarrow> layout option) \<Rightarrow>
     jsstring \<Rightarrow> cellBox \<Rightarrow> layout \<Rightarrow> layout option" where
  "autoTableCell willDraw didDraw raw box st =
     (let st1 = (if willDraw raw = Some False then st
                 else st\<lparr>doc := docText (DrawCellDefault raw) (doc st)\<rparr>)
      in didDraw raw box st1)"

fun autoTableRow ::
  "(jsstring \<Rightarrow> bool option) \<Rightarrow> (jsstring \<Rightarrow> cellBox \<Rightarrow> layout \<Rightarrow> layout option) \<Rightarrow>
     tableLayout \<Rightarrow> nat \<Rightarrow> nat \<Rightarrow> jsstring list \<Rightarrow> layout \<Rightarrow> layout option" where
  "autoTableRow willDraw didDraw lay r c [] st = Some st"
| "autoTableRow willDraw didDraw lay r c (raw # cells) st =
     do {
       st' \<leftarrow> autoTableCell willDraw didDraw raw (boxOf lay r c) st;
       autoTableRow willDraw didDraw lay r (Suc c) cells st'
     }"

fun autoTableRows ::
  "(jsstring \<Rightarrow> bool option) \<Rightarrow> (jsstring \<Rightarrow> cellBox \<Rightarrow> layout \<Rightarrow> layout option) \<Rightarrow>
     tableLayout \<Rightarrow> nat \<Rightarrow> jsstring list list \<Rightarrow> layout \<Rightarrow> layout option" where
  "autoTableRows willDraw didDraw lay r [] st = Some st"
| "autoTableRows willDraw didDraw lay r (row # rows) st =
     do {
       st' \<leftarrow> autoTableRow willDraw didDraw lay r 0 row st;
       autoTableRows willDraw didDraw lay (Suc r) rows st'
     }"

definition autoTable ::
  "facility \<Rightarrow> jsstring list list \<Rightarrow> jsstring list list \<Rightarrow> rat \<Rightarrow>
     (jsstring \<Rightarrow> bool option) \<Rightarrow> (jsstring \<Rightarrow> cellBox \<Rightarrow> layout \<Rightarrow> layout option) \<Rightarrow>
     layout \<Rightarrow> (exn + layout \<times> rat) option" where
  "autoTable F head body startY willDraw didDraw st =
     (case autoTableLayout F head body startY of
        Inl e \<Rightarrow> Some (Inl e)
      | Inr lay \<Rightarrow>
          (case autoTableRows willDraw didDraw lay 0 (head @ body) st of
             None \<Rightarrow> None
           | Some st' \<Rightarrow> Some (Inr (st', finalY lay))))"

text \<open>
  A computation of the layout engine diverges (\<open>None\<close>), throws (\<open>Inl\<close>) or returns.
\<close>

definition andThen :: "(exn + 'a) option \<Rightarrow> ('a \<Rightarrow> (exn + 'b) option) \<Rightarrow> (exn + 'b) option" where
  "andThen m f = (case m of None \<Rightarrow> None | Some (Inl e) \<Rightarrow> Some (Inl e) | Some (Inr v) \<Rightarrow> f v)"

definition renderTable :: "facility \<Rightarrow> layout \<Rightarrow> (exn + layout) option" where
  "renderTable F st =
     (case tableHead (tableLines st) of
        Inl e \<Rightarrow> Some (Inl e)
      | Inr head \<Rightarrow>
          (let body = tableBody (tableLines st);
               st1 = checkPageBreak F (jsAdd F (jsMul F (of_nat (length body)) 10) 10) st
           in andThen (autoTable F head body (y st1) willDrawCell (didDrawCell F) st1)
                (\<lambda>(st2, fy). Some (Inr (st2\<lparr>y := jsAdd F fy 10, inTable := False, tableLines := []\<rparr>)))))"

section \<open>The layout engine\<close>

definition flushTable :: "facility \<Rightarrow> layout \<Rightarrow> (exn + layout) option" where
  "flushTable F st = (if inTable st then renderTable F st else Some (Inr st))"

definition blankLine :: "facility \<Rightarrow> layout \<Rightarrow> (exn + layout) option" where
  "blankLine F st = andThen (flushTable F st) (\<lambda>st1. Some (Inr (st1\<lparr>y := jsAdd F (y st1) 5\<rparr>)))"

definition tableRow :: "jsstring \<Rightarrow> layout \<Rightarrow> layout" where
  "tableRow line st = st\<lparr>inTable := True, tableLines := tableLines st @ [line]\<rparr>"

definition heading2 :: "facility \<Rightarrow> jsstring \<Rightarrow> layout \<Rightarrow> layout" where
  "heading2 F line st =
     (let y1 = jsAdd F (y st) 5;
          d1 = (doc st)\<lparr>fontSize := 16, fontStyle := Bold\<rparr>;
          d2 = docText (DrawTextMaxWidth (substringFrom line 3) leftMargin y1 (contentWidth F)) d1
      in st\<lparr>doc := d2, y := jsAdd F y1 10\<rparr>)"

definition heading3 :: "facility \<Rightarrow> jsstring \<Rightarrow> layout \<Rightarrow> layout" where
  "heading3 F line st =
     (let y1 = jsAdd F (y st) 4;
          d1 = (doc st)\<lparr>fontSize := 12, fontStyle := Bold, textColor := (63, 81, 181)\<rparr>;
          d2 = docText (DrawTextMaxWidth (substringFrom line 4) leftMargin y1 (contentWidth F)) d1;
          d3 = d2\<lparr>textColor := (51, 51, 51)\<rparr>
      in st\<lparr>doc := d3, y := jsAdd F y1 8\<rparr>)"

text \<open>
  \<open>bulletLines.forEach(bulletLine => { y = renderFormattedLine(bulletLine, leftMargin + 3, y - 5, contentWidth - 3); })\<close>
\<close>

fun renderBulletLines :: "facility \<Rightarrow> jsstring list \<Rightarrow> layout \<Rightarrow> layout option" where
  "renderBulletLines F [] st = Some st"
| "renderBulletLines F (bulletLine # rest) st =
     do {
       (newY, st') \<leftarrow> renderFormattedLine F bulletLine (jsAdd F leftMargin 3) (jsSub F (y st) 5)
                        (jsSub F (contentWidth F) 3) st;
       renderBulletLines F rest (st'\<lparr>y := newY\<rparr>)
     }"

definition bulletGlyph :: jschar where
  "bulletGlyph = 0x2022"

definition bulletItem :: "facility \<Rightarrow> jsstring \<Rightarrow> layout \<Rightarrow> layout option" where
  "bulletItem F line st =
     (let st1 = st\<lparr>doc := (doc st)\<lparr>fontSize := 10, fontStyle := Normal\<rparr>\<rparr>;
          bulletLines = splitTextToSize F (fontSize (doc st1)) (fontStyle (doc st1))
                          (bulletGlyph # str ''  '' @ substringFrom line 2)
                          (jsSub F (contentWidth F) 3)
      in renderBulletLines F bulletLines st1)"

definition paragraphLine :: "facility \<Rightarrow> jsstring \<Rightarrow> layout \<Rightarrow> layout option" where
  "paragraphLine F line st =
     do {
       (newY, st') \<leftarrow> renderFormattedLine F line leftMargin (y st) (contentWidth F) st;
       Some (st'\<lparr>y := newY\<rparr>)
     }"

definition returned :: "'a option \<Rightarrow> (exn + 'a) option" where
  "returned m = map_option Inr m"

text \<open>The body of \<open>lines.forEach(line => { ... })\<close> for one line.\<close>

definition processLine :: "facility \<Rightarrow> layout \<Rightarrow> jsstring \<Rightarrow> (exn + layout) option" where
  "processLine F st line0 =
     (let line = trim line0 in
      if line = [] then blankLine F st
      else if of_char CHR ''|'' \<in> set line \<and> startsWith line (str ''|'')
      then Some (Inr (tableRow line st))
      else andThen (flushTable F st) (\<lambda>st1.
        let st2 = checkPageBreak F 10 st1 in
        if startsWith line (str ''## '') then Some (Inr (heading2 F line st2))
        else if startsWith line (str ''### '') then Some (Inr (heading3 F line st2))
        else if startsWith line (str ''- '') then returned (bulletItem F line st2)
        else returned (paragraphLine F line st2)))"

fun processLines :: "facility \<Rightarrow> layout \<Rightarrow> jsstring list \<Rightarrow> (exn + layout) option" where
  "processLines F st [] = Some (Inr st)"
| "processLines F st (line # rest) = andThen (processLine F st line) (\<lambda>st'. processLines F st' rest)"

text \<open>\<open>addPageNumbers\<close>: the stamp on the pages \<open>i, ..., pageCount\<close>, \<open>n\<close> of them.\<close>

fun stampPages :: "facility \<Rightarrow> nat \<Rightarrow> nat \<Rightarrow> nat \<Rightarrow> jsPDF \<Rightarrow> jsPDF" where
  "stampPages F pageCount i 0 d = d"
| "stampPages F pageCount i (Suc n) d =
     stampPages F pageCount (Suc i) n
       (docText (DrawTextCentered (str ''Page '' @ showNat i @ str '' of '' @ showNat pageCount)
                   (jsDiv F (pageWidth F) 2) (jsSub F (pageHeight F) 10))
          (d\<lparr>currentPage := i\<rparr>))"

definition addPageNumbers :: "facility \<Rightarrow> jsPDF \<Rightarrow> jsPDF" where
  "addPageNumbers F d =
     (let pageCount = numberOfPages d;
          d1 = d\<lparr>fontSize := 9, fontStyle := Italic\<rparr>
      in stampPages F pageCount 1 pageCount d1)"

text \<open>
  The body of the \<open>try\<close> block of \<open>downloadAsPdf\<close> up to the call of \<open>doc.save\<close>: it
  gives the finished document.
\<close>

definition generate :: "facility \<Rightarrow> jsstring \<Rightarrow> jsstring \<Rightarrow> (exn + jsPDF) option" where
  "generate F reportText ticker =
     (let d0 = newDoc\<lparr>fontSize := 24, fontStyle := Bold\<rparr>;
          d1 = docText (DrawText (str ''Financial Analyst Report: '' @ toUpperCase F ticker)
                         leftMargin topMargin) d0;
          st0 = \<lparr>doc = d1, y = jsAdd F topMargin 15, tableLines = [], inTable = False\<rparr>;
          lines = split reportText 0x0A
      in andThen (processLines F st0 lines) (\<lambda>st1.
           andThen (flushTable F st1) (\<lambda>st2.
             Some (Inr (addPageNumbers F (doc st2))))))"

text \<open>
  What the user gets from \<open>downloadAsPdf\<close>: the file handed to the browser, the
  console log and the notices shown.
\<close>

record outcome =
  saved :: "(jsstring \<times> jsPDF) option"
  consoleErrors :: "(jsstring \<times> exn) list"
  notices :: "jsstring list"

definition downloadAsPdf :: "facility \<Rightarrow> jsstring \<Rightarrow> jsstring \<Rightarrow> outcome option" where
  "downloadAsPdf F reportText ticker =
     (case generate F reportText ticker of
        None \<Rightarrow> None
      | Some (Inr d) \<Rightarrow>
          Some \<lparr>saved = Some (ticker @ str ''_Financial_Analysis.pdf'', d),
                consoleErrors = [], notices = []\<rparr>
      | Some (Inl e) \<Rightarrow>
          Some \<lparr>saved = None,
                consoleErrors = [(str ''Failed to generate PDF:'', e)],
                notices = [str ''An error occurred while creating the PDF file.'']\<rparr>)"

section \<open>Auxiliary notions for the statements\<close>

text \<open>
  The tokens one round of the tokenizer's loop pushes: the plain text before the
  match, the tokens of the match itself, and the plain text after the last match.
\<close>

definition plainToken :: "jsstring \<Rightarrow> token" where
  "plainToken s = \<lparr>ttext = s, isBold = False, isLink = False, url = None\<rparr>"

definition linkToken :: "jsstring \<Rightarrow> token" where
  "linkToken s = \<lparr>ttext = s, isBold = False, isLink = True, url = Some s\<rparr>"

definition tokensBefore :: "jsstring \<Rightarrow> nat \<Rightarrow> nat \<Rightarrow> token list" where
  "tokensBefore line lastIndex index =
     (if index > lastIndex then [plainToken (substring line lastIndex index)] else [])"

definition tokensOfMatch :: "jsstring \<Rightarrow> token list" where
  "tokensOfMatch matchedText =
     (if startsWith matchedText (str ''http'') then [linkToken matchedText]
      else map (\<lambda>token. token\<lparr>isBold := True\<rparr>)
             (tokenizeLine (substring matchedText 2 (length matchedText - 2))))"

definition tokensAfter :: "jsstring \<Rightarrow> nat \<Rightarrow> token list" where
  "tokensAfter line lastIndex =
     (if lastIndex < length line then [plainToken (substringFrom line lastIndex)] else [])"

text \<open>
  A line contains a bold marker pair, or a bare URL, when the alternative of the
  regular expression matches at some position of the line.
\<close>

fun containsBoldPair :: "jsstring \<Rightarrow> bool" where
  "containsBoldPair [] = False"
| "containsBoldPair (c # s) = (matchBold (c # s) \<noteq> None \<or> containsBoldPair s)"

fun containsUrl :: "jsstring \<Rightarrow> bool" where
  "containsUrl [] = False"
| "containsUrl (c # s) = (matchUrl (c # s) \<noteq> None \<or> containsUrl s)"

text \<open>The concatenation of the \<open>text\<close> fields of a sequence of tokens.\<close>

definition texts :: "token list \<Rightarrow> jsstring" where
  "texts ts = concat (map ttext ts)"

text \<open>
  The line with the delimiters of its bold matches stripped, to compare with the texts
  of the tokens: the matches are those \<open>regex.exec\<close> finds from left to right; the text
  before a match and a URL match are kept as they are, and of a bold match the two
  characters at either end are left out.
\<close>

function stripDelimiters :: "jsstring \<Rightarrow> jsstring" where
  "stripDelimiters line =
     (case regexExec line 0 of
        None \<Rightarrow> line
      | Some (index, matchedText) \<Rightarrow>
          take index line
          @ (if startsWith matchedText (str ''http'') then matchedText
             else substring matchedText 2 (length matchedText - 2))
          @ stripDelimiters (drop (index + length matchedText) line))"
  by pat_completeness auto
termination
proof (relation "measure length", goal_cases)
  case 1
  show ?case by simp
next
  case (2 line x2 index matchedText)
  then have "regexExec line 0 = Some (index, matchedText)" by simp
  from regexExec_bounds(2,3) [OF this] show ?case by simp
qed

declare stripDelimiters.simps [simp del]

text \<open>
  A concrete facility and a concrete state, on which the statements are evaluated:
  the letter \<open>i\<close> is 1 wide and every other character 3 wide in every font, the page
  is A4, the line splitter returns its text as one line, and the table facility throws.
  Its rounding changes nothing: on the inputs evaluated with it every number is a small
  integer, which doubles add and subtract without error.
  The state is the one the layout engine starts in: the title is set in bold at size 24.
\<close>

definition sampleCharWidth :: "jschar \<Rightarrow> rat" where
  "sampleCharWidth c = (if c = of_char CHR ''i'' then 1 else 3)"

definition sampleFacility :: facility where
  "sampleFacility =
     \<lparr>getTextWidth = (\<lambda>size style s. sum_list (map sampleCharWidth s)),
      pageWidth = 210, pageHeight = 297,
      splitTextToSize = (\<lambda>size style s w. [s]),
      autoTableLayout = (\<lambda>head body startY. Inl (FacilityError 0)),
      toUpperCase = (\<lambda>s. s),
      roundNumber = (\<lambda>r. r)\<rparr>"

definition sampleState :: layout where
  "sampleState = \<lparr>doc = newDoc\<lparr>fontSize := 24, fontStyle := Bold\<rparr>, y = 35, tableLines = [], inTable = False\<rparr>"







text \<open>
  A row as the specification words it, to compare with \<open>parseRow\<close>: split on the
  pipe, the leading empty field and the trailing empty field dropped, each cell trimmed.
\<close>

definition dropOuterEmpty :: "jsstring list \<Rightarrow> jsstring list" where
  "dropOuterEmpty parts =
     (let parts1 = (case parts of [] \<Rightarrow> [] | f # fs \<Rightarrow> if f = [] then fs else f # fs)
      in if parts1 \<noteq> [] \<and> last parts1 = [] then butlast parts1 else parts1)"

definition rowAsSpecified :: "jsstring \<Rightarrow> jsstring list" where
  "rowAsSpecified row = map trim (dropOuterEmpty (split row (of_char CHR ''|'')))"

text \<open>
  What a stretch of the program has drawn: \<open>onlyText st st'\<close> says that from \<open>st\<close>
  to \<open>st'\<close> items were only added and none of them is the default draw of a table
  cell; \<open>noLinkDefault\<close>, that none of them is the default draw of a cell whose text
  contains a URL scheme.
\<close>

definition cellDefaultOf :: "drawOp \<Rightarrow> jsstring option" where
  "cellDefaultOf op = (case op of DrawCellDefault raw \<Rightarrow> Some raw | _ \<Rightarrow> None)"

definition onlyText :: "layout \<Rightarrow> layout \<Rightarrow> bool" where
  "onlyText st st' =
     (\<exists>new. drawn (doc st') = drawn (doc st) @ new \<and> (\<forall>(pg, op) \<in> set new. cellDefaultOf op = None))"

definition noLinkDefault :: "layout \<Rightarrow> layout \<Rightarrow> bool" where
  "noLinkDefault st st' =
     (\<exists>new. drawn (doc st') = drawn (doc st) @ new
        \<and> (\<forall>(pg, op) \<in> set new. \<forall>raw. op = DrawCellDefault raw \<longrightarrow> \<not> hasUrlScheme raw))"

text \<open>
  A facility whose table layout succeeds, with columns 60 wide and rows 8 high, and a
  state with a table run of a header, a separator and one row that is a link.
\<close>

definition sampleTableFacility :: facility where
  "sampleTableFacility =
     sampleFacility\<lparr>autoTableLayout := (\<lambda>head body startY.
        Inr \<lparr>boxOf = (\<lambda>r c. \<lparr>cellX = 15 + 60 * of_nat c, cellY = startY + 8 * of_nat r,
                                 cellWidth = 60, padLeft = 2, padTop = 2, padHorizontal = 4\<rparr>),
              finalY = startY + 8 * of_nat (length head + length body)\<rparr>)\<rparr>"

definition sampleTableState :: layout where
  "sampleTableState =
     sampleState\<lparr>tableLines := [str ''|Site|'', str ''|-|'', str ''|https://x.com|''], inTable := True\<rparr>"

section \<open>Properties of the tokenizer\<close>

lemma scan_shift: "scan s (i + d) = map_option (\<lambda>(j, n). (j + d, n)) (scan s i)"
proof (induction s arbitrary: i)
  case Nil
  show ?case by (simp split: option.splits)
next
  case (Cons c r)
  show ?case using Cons.IH [of "Suc i"] by (simp split: option.splits)
qed

lemma substring_drop: "substring (drop d s) a b = substring s (a + d) (b + d)"
  by (cases "a \<le> b") (simp_all add: substring_def max_def min_def add.commute)

lemma regexExec_drop:
  assumes "li + k \<le> length line"
  shows "regexExec line (li + k) = map_option (\<lambda>(i, m). (i + li, m)) (regexExec (drop li line) k)"
proof -
  have "scan (drop (li + k) line) (k + li) =
        map_option (\<lambda>(j, n). (j + li, n)) (scan (drop (li + k) line) k)"
    by (rule scan_shift)
  moreover have "drop k (drop li line) = drop (li + k) line"
    by (simp add: add.commute)
  ultimately show ?thesis using assms
    by (cases "scan (drop (li + k) line) k")
       (auto simp: regexExec_def add.commute substring_drop add.assoc add.left_commute)
qed

lemma tokenizeLoop_None:
  "regexExec line li = None \<Longrightarrow> tokenizeLoop line li acc = acc @ tokensAfter line li"
  by (subst tokenizeLoop.simps) (simp add: tokensAfter_def plainToken_def)

lemma tokenizeLoop_Some:
  "regexExec line li = Some (index, m) \<Longrightarrow>
   tokenizeLoop line li acc =
     tokenizeLoop line (index + length m) (acc @ tokensBefore line li index @ tokensOfMatch m)"
  by (subst tokenizeLoop.simps)
     (simp add: tokensBefore_def tokensOfMatch_def plainToken_def linkToken_def Let_def)

lemma tokenizeLoop_acc: "tokenizeLoop line li acc = acc @ tokenizeLoop line li []"
proof (induction "length line - li" arbitrary: li acc rule: less_induct)
  case less
  show ?case
  proof (cases "regexExec line li")
    case None
    then show ?thesis by (simp add: tokenizeLoop_None)
  next
    case (Some p)
    obtain index m where p: "p = (index, m)" by (cases p)
    note ex = Some [unfolded p]
    from regexExec_bounds(1,2,3) [OF ex]
    have dec: "length line - (index + length m) < length line - li" by simp
    note ih = less [OF dec]
    show ?thesis
      using ih [of "acc @ tokensBefore line li index @ tokensOfMatch m"]
            ih [of "tokensBefore line li index @ tokensOfMatch m"]
      by (simp add: tokenizeLoop_Some [OF ex])
  qed
qed

lemma tokenizeLoop_drop:
  "li + k \<le> length line \<Longrightarrow> tokenizeLoop line (li + k) acc = tokenizeLoop (drop li line) k acc"
proof (induction "length line - (li + k)" arbitrary: k acc rule: less_induct)
  case less
  note ex = regexExec_drop [OF less.prems]
  show ?case
  proof (cases "regexExec (drop li line) k")
    case None
    with ex have "regexExec line (li + k) = None" by simp
    moreover have "tokensAfter line (li + k) = tokensAfter (drop li line) k"
      using less.prems by (auto simp: tokensAfter_def substringFrom_def add.commute)
    ultimately show ?thesis using None
      by (simp add: tokenizeLoop_None)
  next
    case (Some p)
    obtain index m where p: "p = (index, m)" by (cases p)
    note ex' = Some [unfolded p]
    from ex ex' have ex1: "regexExec line (li + k) = Some (index + li, m)" by simp
    from regexExec_bounds(1,2,3) [OF ex'] less.prems
    have b: "k \<le> index" "4 \<le> length m" "li + (index + length m) \<le> length line" by auto
    then have dec: "length line - (li + (index + length m)) < length line - (li + k)" by simp
    have tb: "tokensBefore line (li + k) (index + li) = tokensBefore (drop li line) k index"
      by (simp add: tokensBefore_def substring_drop add.commute)
    have eq: "index + li + length m = li + (index + length m)" by simp
    show ?thesis
      unfolding tokenizeLoop_Some [OF ex1] tokenizeLoop_Some [OF ex'] tb eq
      by (rule less.hyps [OF dec b(3)])
  qed
qed

lemma tokenizeLine_unfold:
  "tokenizeLine line =
     (case regexExec line 0 of
        None \<Rightarrow> tokensAfter line 0
      | Some (index, m) \<Rightarrow>
          tokensBefore line 0 index @ tokensOfMatch m @ tokenizeLine (drop (index + length m) line))"
proof (cases "regexExec line 0")
  case None
  then show ?thesis by (simp add: tokenizeLoop_None tokenizeLine.simps)
next
  case (Some p)
  obtain index m where p: "p = (index, m)" by (cases p)
  note ex = Some [unfolded p]
  from regexExec_bounds(3) [OF ex] have le: "(index + length m) + 0 \<le> length line" by simp
  have "tokenizeLine line = tokenizeLoop line (index + length m) (tokensBefore line 0 index @ tokensOfMatch m)"
    using tokenizeLoop_Some [OF ex, of "[]"] by (simp add: tokenizeLine.simps)
  also have "\<dots> = (tokensBefore line 0 index @ tokensOfMatch m) @ tokenizeLoop line (index + length m) []"
    by (rule tokenizeLoop_acc)
  also have "tokenizeLoop line (index + length m) [] = tokenizeLine (drop (index + length m) line)"
    using tokenizeLoop_drop [OF le, of "[]"] by (simp add: tokenizeLine.simps)
  finally show ?thesis by (simp add: ex)
qed

lemma matchHere_Nil [simp]: "matchHere [] = None"
  by (simp add: matchHere_def matchBold_def matchUrl_def startsWith_def str_def)

lemma matchBold_Nil [simp]: "matchBold [] = None"
  by (simp add: matchBold_def startsWith_def str_def)

lemma containsBoldPair_iff: "containsBoldPair s \<longleftrightarrow> (\<exists>i. matchBold (drop i s) \<noteq> None)"
proof (induction s)
  case Nil
  show ?case by simp
next
  case (Cons c s)
  show ?case
  proof
    assume "containsBoldPair (c # s)"
    then consider "matchBold (c # s) \<noteq> None" | "containsBoldPair s" by auto
    then show "\<exists>i. matchBold (drop i (c # s)) \<noteq> None"
    proof cases
      case 1
      then have "matchBold (drop 0 (c # s)) \<noteq> None" by simp
      then show ?thesis by blast
    next
      case 2
      with Cons.IH obtain i where "matchBold (drop i s) \<noteq> None" by auto
      then have "matchBold (drop (Suc i) (c # s)) \<noteq> None" by simp
      then show ?thesis by blast
    qed
  next
    assume "\<exists>i. matchBold (drop i (c # s)) \<noteq> None"
    then obtain i where i: "matchBold (drop i (c # s)) \<noteq> None" by auto
    show "containsBoldPair (c # s)"
    proof (cases i)
      case 0
      with i show ?thesis by simp
    next
      case (Suc j)
      with i have "matchBold (drop j s) \<noteq> None" by simp
      with Cons.IH show ?thesis by auto
    qed
  qed
qed

lemma containsBoldPair_drop: "\<not> containsBoldPair s \<Longrightarrow> \<not> containsBoldPair (drop n s)"
  by (auto simp: containsBoldPair_iff)

lemma scan_None_iff: "scan s i = None \<longleftrightarrow> \<not> containsBoldPair s \<and> \<not> containsUrl s"
proof (induction s arbitrary: i)
  case Nil
  show ?case by simp
next
  case (Cons c s)
  show ?case using Cons.IH [of "Suc i"]
    by (auto simp: matchHere_def split: option.splits)
qed

lemma regexExec_None_iff:
  "regexExec line 0 = None \<longleftrightarrow> \<not> containsBoldPair line \<and> \<not> containsUrl line"
  by (simp add: regexExec_def scan_None_iff)

subsection \<open>Lines without markers\<close>

text \<open>
  Claim C8. A non-empty line in which neither alternative of the expression matches at
  any position (no \<open>**...**\<close> pair and no bare URL) is tokenized into exactly one
  plain token whose text is the whole line; the empty line gives no token at all.
\<close>

theorem tokenize_plain:
  "(\<not> containsBoldPair line \<and> \<not> containsUrl line \<and> line \<noteq> [] \<longrightarrow>
      tokenizeLine line = [\<lparr>ttext = line, isBold = False, isLink = False, url = None\<rparr>])
   \<and> tokenizeLine [] = []"
proof (intro conjI impI)
  assume "\<not> containsBoldPair line \<and> \<not> containsUrl line \<and> line \<noteq> []"
  then have "regexExec line 0 = None" and "line \<noteq> []"
    by (simp_all add: regexExec_None_iff)
  then show "tokenizeLine line = [\<lparr>ttext = line, isBold = False, isLink = False, url = None\<rparr>]"
    by (simp add: tokenizeLine.simps tokenizeLoop_None tokensAfter_def plainToken_def substringFrom_def)
next
  have "regexExec [] 0 = None" by (simp add: regexExec_def)
  then show "tokenizeLine [] = []"
    by (simp add: tokenizeLine.simps tokenizeLoop_None tokensAfter_def)
qed

theorem tokenize_plain_witness:
  "\<not> containsBoldPair (str ''plain'') \<and> \<not> containsUrl (str ''plain'') \<and> str ''plain'' \<noteq> [] \<and>
   tokenizeLine (str ''plain'') = [\<lparr>ttext = str ''plain'', isBold = False, isLink = False, url = None\<rparr>]"
proof -
  have h: "\<not> containsBoldPair (str ''plain'') \<and> \<not> containsUrl (str ''plain'') \<and> str ''plain'' \<noteq> []"
    by code_simp
  with tokenize_plain [of "str ''plain''"] show ?thesis by blast
qed

lemma startsWith_append: "startsWith s p \<Longrightarrow> s = p @ drop (length p) s"
  unfolding startsWith_def by (metis append_take_drop_id)

lemma startsWith_take:
  "length p \<le> n \<Longrightarrow> startsWith (take n s) p = startsWith s p"
  by (simp add: startsWith_def min_def)

lemma lazyDot_close: "lazyDot r = Some k \<Longrightarrow> startsWith (drop k r) (str ''**'')"
proof (induction r arbitrary: k)
  case Nil
  then show ?case by simp
next
  case (Cons c r)
  show ?case
  proof (cases "startsWith (c # r) (str ''**'')")
    case True
    with Cons.prems show ?thesis by simp
  next
    case False
    with Cons.prems obtain k' where "lazyDot r = Some k'" "k = Suc k'"
      by (auto split: if_splits)
    with Cons.IH show ?thesis by simp
  qed
qed

lemma matchBold_shape:
  assumes "matchBold s = Some n"
  shows "take n s = str ''**'' @ take (n - 4) (drop 2 s) @ str ''**''"
proof -
  from assms obtain k where sw: "startsWith s (str ''**'')"
    and k: "lazyDot (drop 2 s) = Some k" and n: "n = k + 4"
    by (auto simp: matchBold_def split: if_splits)
  from startsWith_append [OF sw] have s: "s = str ''**'' @ drop 2 s"
    by (simp add: numeral_2_eq_2)
  from startsWith_append [OF lazyDot_close [OF k]]
  have d: "drop k (drop 2 s) = str ''**'' @ drop 2 (drop k (drop 2 s))"
    by (simp add: numeral_2_eq_2)
  have "take n s = take (k + 4) (str ''**'' @ drop 2 s)" using s n by simp
  also have "\<dots> = str ''**'' @ take (k + 2) (drop 2 s)" by simp
  also have "take (k + 2) (drop 2 s) = take k (drop 2 s) @ take 2 (drop k (drop 2 s))"
    by (rule take_add)
  also have "take 2 (drop k (drop 2 s)) = str ''**''"
    by (subst d) simp
  finally show ?thesis using n by simp
qed

lemma startsWith_prefix: "startsWith s (p @ q) \<Longrightarrow> startsWith s p"
proof -
  assume "startsWith s (p @ q)"
  then have "take (length p) (take (length (p @ q)) s) = take (length p) (p @ q)"
    by (simp only: startsWith_def)
  then show ?thesis by (simp add: startsWith_def min_def)
qed

lemma matchUrl_http: "matchUrl s = Some n \<Longrightarrow> startsWith s (str ''http'')"
proof -
  assume "matchUrl s = Some n"
  then consider "startsWith s (str ''https://'')" | "startsWith s (str ''http://'')"
    by (auto simp: matchUrl_def Let_def split: if_splits)
  then show ?thesis
  proof cases
    case 1
    have "str ''https://'' = str ''http'' @ str ''s://''" by (simp add: str_def)
    with 1 show ?thesis using startsWith_prefix by metis
  next
    case 2
    have "str ''http://'' = str ''http'' @ str ''://''" by (simp add: str_def)
    with 2 show ?thesis using startsWith_prefix by metis
  qed
qed

lemma matchBold_not_http: "matchBold s = Some n \<Longrightarrow> \<not> startsWith s (str ''http'')"
proof
  assume "matchBold s = Some n" and h: "startsWith s (str ''http'')"
  then have b: "startsWith s (str ''**'')"
    by (auto simp: matchBold_def split: if_splits)
  have "str ''http'' = str ''ht'' @ str ''tp''" by (simp add: str_def)
  with h have "startsWith s (str ''ht'')" using startsWith_prefix by metis
  with b have "str ''ht'' = str ''**''" by (simp add: startsWith_def)
  then show False by (simp add: str_def)
qed

lemma matchHere_cases:
  assumes "matchHere s = Some n"
  shows "(startsWith (take n s) (str ''http'') \<and> matchBold s = None \<and> matchUrl s = Some n)
       \<or> (\<not> startsWith (take n s) (str ''http'') \<and> matchBold s = Some n)"
proof -
  from matchHere_bound [OF assms] have n: "length (str ''http'') \<le> n" by simp
  show ?thesis
  proof (cases "matchBold s")
    case None
    with assms have "matchUrl s = Some n" by (simp add: matchHere_def)
    with None matchUrl_http [OF this] n show ?thesis
      by (simp add: startsWith_take)
  next
    case (Some k)
    with assms have "k = n" by (simp add: matchHere_def)
    with Some matchBold_not_http [of s n] n show ?thesis
      by (simp add: startsWith_take)
  qed
qed


lemma regexExec_split:
  assumes "regexExec line li = Some (index, m)"
  shows "line = take index line @ m @ drop (index + length m) line"
proof -
  have "line = take index line @ drop index line" by simp
  also have "drop index line = take (length m) (drop index line) @ drop (length m) (drop index line)"
    by (simp only: append_take_drop_id)
  also have "take (length m) (drop index line) = m"
    using regexExec_bounds(4) [OF assms] by simp
  finally show ?thesis by (simp add: add.commute)
qed

lemma regexExec_bold:
  assumes "regexExec line li = Some (index, m)" and "\<not> startsWith m (str ''http'')"
  shows "m = str ''**'' @ substring m 2 (length m - 2) @ str ''**''"
proof -
  note b = regexExec_bounds [OF assms(1)]
  from b(4) have tk: "take (length m) (drop index line) = m" by simp
  from matchHere_cases [OF b(5)] assms(2) tk
  have "matchBold (drop index line) = Some (length m)" by simp
  from matchBold_shape [OF this] tk
  have sh: "m = str ''**'' @ take (length m - 4) (drop 2 (drop index line)) @ str ''**''" by simp
  define inner where "inner = take (length m - 4) (drop 2 (drop index line))"
  from sh have m: "m = str ''**'' @ inner @ str ''**''" by (simp add: inner_def)
  then have "length m = length inner + 4" by simp
  then have "substring m 2 (length m - 2) = take (length inner) (drop (length (str ''**'')) m)"
    by (simp add: substring_def)
  also have "\<dots> = inner" by (subst m) (simp only: drop_append drop_all, simp)
  finally show ?thesis using m by simp
qed

lemma regexExec_link:
  assumes "regexExec line li = Some (index, m)" and "startsWith m (str ''http'')"
  shows "matchBold (drop index line) = None"
proof -
  note b = regexExec_bounds [OF assms(1)]
  from b(4) have tk: "take (length m) (drop index line) = m" by simp
  from matchHere_cases [OF b(5)] assms(2) tk show ?thesis by simp
qed

lemma texts_append [simp]: "texts (xs @ ys) = texts xs @ texts ys"
  by (simp add: texts_def)

lemma texts_bold [simp]: "texts (map (\<lambda>token. token\<lparr>isBold := True\<rparr>) ts) = texts ts"
  by (simp add: texts_def comp_def)

lemma texts_tokensBefore [simp]: "texts (tokensBefore line 0 index) = take index line"
  by (simp add: texts_def tokensBefore_def plainToken_def substring_def)

lemma texts_tokensAfter [simp]: "texts (tokensAfter line 0) = line"
  by (simp add: texts_def tokensAfter_def plainToken_def substringFrom_def)

lemma texts_tokensOfMatch:
  "texts (tokensOfMatch m) =
     (if startsWith m (str ''http'') then m
      else texts (tokenizeLine (substring m 2 (length m - 2))))"
  by (simp add: tokensOfMatch_def linkToken_def) (simp add: texts_def)

lemma texts_tokenizeLine:
  "texts (tokenizeLine line) =
     (case regexExec line 0 of
        None \<Rightarrow> line
      | Some (index, m) \<Rightarrow>
          take index line
          @ (if startsWith m (str ''http'') then m
             else texts (tokenizeLine (substring m 2 (length m - 2))))
          @ texts (tokenizeLine (drop (index + length m) line)))"
  by (subst tokenizeLine_unfold) (simp add: texts_tokensOfMatch split: option.splits)

lemma texts_no_bold: "\<not> containsBoldPair line \<Longrightarrow> texts (tokenizeLine line) = line"
proof (induction "length line" arbitrary: line rule: less_induct)
  case less
  show ?case
  proof (cases "regexExec line 0")
    case None
    then show ?thesis by (simp add: texts_tokenizeLine)
  next
    case (Some p)
    obtain index m where p: "p = (index, m)" by (cases p)
    note ex = Some [unfolded p]
    note b = regexExec_bounds(2,3) [OF ex]
    from less.prems have "matchBold (drop index line) = None"
      by (simp add: containsBoldPair_iff)
    with matchHere_cases [OF regexExec_bounds(5) [OF ex]] regexExec_bounds(4) [OF ex]
    have lnk: "startsWith m (str ''http'')" by auto
    have "texts (tokenizeLine (drop (index + length m) line)) = drop (index + length m) line"
      using b less.prems by (intro less.hyps containsBoldPair_drop) simp_all
    with lnk regexExec_split [OF ex] show ?thesis
      by (simp add: texts_tokenizeLine ex)
  qed
qed

lemma texts_subseq: "subseq (texts (tokenizeLine line)) line"
proof (induction "length line" arbitrary: line rule: less_induct)
  case less
  show ?case
  proof (cases "regexExec line 0")
    case None
    then show ?thesis by (simp add: texts_tokenizeLine)
  next
    case (Some p)
    obtain index m where p: "p = (index, m)" by (cases p)
    note ex = Some [unfolded p]
    note b = regexExec_bounds(2,3) [OF ex]
    define mid where "mid = (if startsWith m (str ''http'') then m
             else texts (tokenizeLine (substring m 2 (length m - 2))))"
    have rest: "subseq (texts (tokenizeLine (drop (index + length m) line))) (drop (index + length m) line)"
      using b by (intro less.hyps) simp
    have mid: "subseq mid m"
    proof (cases "startsWith m (str ''http'')")
      case True
      then show ?thesis by (simp add: mid_def)
    next
      case False
      define inner where "inner = substring m 2 (length m - 2)"
      from regexExec_bold [OF ex False] have m: "m = str ''**'' @ inner @ str ''**''"
        by (simp add: inner_def)
      then have "length m = length inner + 4" by simp
      with b have "length inner < length line" by linarith
      then have "subseq (texts (tokenizeLine inner)) inner" by (rule less.hyps)
      also have "subseq inner m"
        by (subst m) (rule list_emb_append2, rule subseq_rev_drop_many [OF subseq_order.order_refl])
      finally show ?thesis using False by (simp add: mid_def inner_def)
    qed
    have "subseq (take index line @ mid @ texts (tokenizeLine (drop (index + length m) line)))
                 (take index line @ m @ drop (index + length m) line)"
      by (intro list_emb_append_mono mid rest subseq_order.order_refl)
    with regexExec_split [OF ex] show ?thesis
      by (simp add: texts_tokenizeLine ex mid_def)
  qed
qed


lemma texts_filter_star:
  "filter (\<lambda>c. c \<noteq> of_char CHR ''*'') (texts (tokenizeLine line)) =
   filter (\<lambda>c. c \<noteq> of_char CHR ''*'') line"
proof (induction "length line" arbitrary: line rule: less_induct)
  case less
  let ?f = "filter (\<lambda>c. c \<noteq> (of_char CHR ''*'' :: jschar))"
  show ?case
  proof (cases "regexExec line 0")
    case None
    then show ?thesis by (simp add: texts_tokenizeLine)
  next
    case (Some p)
    obtain index m where p: "p = (index, m)" by (cases p)
    note ex = Some [unfolded p]
    note b = regexExec_bounds(2,3) [OF ex]
    define mid where "mid = (if startsWith m (str ''http'') then m
             else texts (tokenizeLine (substring m 2 (length m - 2))))"
    have rest: "?f (texts (tokenizeLine (drop (index + length m) line))) = ?f (drop (index + length m) line)"
      using b by (intro less.hyps) simp
    have mid: "?f mid = ?f m"
    proof (cases "startsWith m (str ''http'')")
      case True
      then show ?thesis by (simp add: mid_def)
    next
      case False
      define inner where "inner = substring m 2 (length m - 2)"
      from regexExec_bold [OF ex False] have m: "m = str ''**'' @ inner @ str ''**''"
        by (simp add: inner_def)
      then have "length m = length inner + 4" by simp
      with b have "length inner < length line" by linarith
      then have "?f (texts (tokenizeLine inner)) = ?f inner" by (rule less.hyps)
      also have "?f inner = ?f (str ''**'' @ inner @ str ''**'')"
        by (simp add: str_def)
      also have "\<dots> = ?f m" using m by simp
      finally show ?thesis using False by (simp add: mid_def inner_def)
    qed
    have "?f (take index line @ mid @ texts (tokenizeLine (drop (index + length m) line)))
        = ?f (take index line @ m @ drop (index + length m) line)"
      by (simp only: filter_append mid rest)
    with regexExec_split [OF ex] show ?thesis
      by (simp add: texts_tokenizeLine ex mid_def)
  qed
qed

text \<open>
  The inner text of a bold match contains no bold marker pair: the lazy \<open>.*?\<close> stops
  at the first \<open>**\<close> that follows the opening delimiter.
\<close>

lemma lazyDot_first:
  "lazyDot r = Some k \<Longrightarrow> j < k \<Longrightarrow> \<not> startsWith (drop j r) (str ''**'')"
proof (induction r arbitrary: k j)
  case Nil
  then show ?case by simp
next
  case (Cons c r)
  show ?case
  proof (cases "startsWith (c # r) (str ''**'')")
    case True
    with Cons.prems show ?thesis by simp
  next
    case False
    with Cons.prems obtain k' where k': "lazyDot r = Some k'" "k = Suc k'"
      by (auto split: if_splits)
    show ?thesis
    proof (cases j)
      case 0
      with False show ?thesis by simp
    next
      case (Suc j')
      with Cons.prems k' have "j' < k'" by simp
      from Cons.IH [OF k'(1) this] Suc show ?thesis by simp
    qed
  qed
qed

lemma lazyDot_inner: 
  assumes "lazyDot r = Some k"
  shows "\<not> containsBoldPair (take k r)"
proof
  assume "containsBoldPair (take k r)"
  then obtain i where i: "matchBold (drop i (take k r)) \<noteq> None"
    by (auto simp: containsBoldPair_iff)
  then have sw: "startsWith (drop i (take k r)) (str ''**'')"
    by (auto simp: matchBold_def split: if_splits)
  from startsWith_length [OF sw] have l: "i + 2 \<le> k" by simp
  have "drop i (take k r) = take (k - i) (drop i r)" by (simp add: drop_take)
  with sw have "startsWith (take (k - i) (drop i r)) (str ''**'')" by simp
  moreover from l have "length (str ''**'') \<le> k - i" by simp
  ultimately have "startsWith (drop i r) (str ''**'')" by (simp only: startsWith_take)
  moreover from l have "i < k" by simp
  ultimately show False using lazyDot_first [OF assms] by blast
qed

lemma regexExec_inner:
  assumes "regexExec line li = Some (index, m)" and "\<not> startsWith m (str ''http'')"
  shows "\<not> containsBoldPair (substring m 2 (length m - 2))"
proof -
  note b = regexExec_bounds [OF assms(1)]
  from b(4) have tk: "take (length m) (drop index line) = m" by simp
  from matchHere_cases [OF b(5)] assms(2) tk
  have mb: "matchBold (drop index line) = Some (length m)" by simp
  then have "\<exists>k. lazyDot (drop 2 (drop index line)) = Some k \<and> k + 4 = length m"
    by (auto simp: matchBold_def simp del: drop_drop split: if_splits)
  then obtain k where k: "lazyDot (drop 2 (drop index line)) = Some k" and "k + 4 = length m"
    by blast
  then have n: "length m = k + 4" by simp
  from matchBold_shape [OF mb] tk n
  have sh: "m = str ''**'' @ take k (drop 2 (drop index line)) @ str ''**''" by simp
  define inner where "inner = take k (drop 2 (drop index line))"
  from sh have m: "m = str ''**'' @ inner @ str ''**''" by (simp add: inner_def)
  from regexExec_bold [OF assms] have "str ''**'' @ inner @ str ''**'' = str ''**'' @ substring m 2 (length m - 2) @ str ''**''"
    using m by simp
  then have "substring m 2 (length m - 2) = inner" by simp
  with lazyDot_inner [OF k] show ?thesis by (simp add: inner_def)
qed

lemma texts_stripDelimiters: "texts (tokenizeLine line) = stripDelimiters line"
proof (induction "length line" arbitrary: line rule: less_induct)
  case less
  show ?case
  proof (cases "regexExec line 0")
    case None
    then show ?thesis by (simp add: texts_tokenizeLine stripDelimiters.simps)
  next
    case (Some p)
    obtain index m where p: "p = (index, m)" by (cases p)
    note ex = Some [unfolded p]
    note b = regexExec_bounds(2,3) [OF ex]
    have rest: "texts (tokenizeLine (drop (index + length m) line)) = stripDelimiters (drop (index + length m) line)"
      using b by (intro less.hyps) simp
    have mid: "\<not> startsWith m (str ''http'') \<Longrightarrow>
          texts (tokenizeLine (substring m 2 (length m - 2))) = substring m 2 (length m - 2)"
      by (rule texts_no_bold, rule regexExec_inner [OF ex])
    show ?thesis
      by (subst texts_tokenizeLine, subst stripDelimiters.simps) (simp add: ex rest mid)
  qed
qed

lemma tokenizeLoop_round:
  "tokenizeLoop line li acc =
     acc @ (case regexExec line li of
              None \<Rightarrow> tokensAfter line li
            | Some (index, m) \<Rightarrow>
                tokensBefore line li index @ tokensOfMatch m @ tokenizeLoop line (index + length m) [])"
proof (cases "regexExec line li")
  case None
  then show ?thesis by (simp add: tokenizeLoop_None)
next
  case (Some p)
  obtain index m where p: "p = (index, m)" by (cases p)
  note ex = Some [unfolded p]
  have "tokenizeLoop line li acc =
        tokenizeLoop line (index + length m) (acc @ tokensBefore line li index @ tokensOfMatch m)"
    by (rule tokenizeLoop_Some [OF ex])
  also have "\<dots> = (acc @ tokensBefore line li index @ tokensOfMatch m) @ tokenizeLoop line (index + length m) []"
    by (rule tokenizeLoop_acc)
  finally show ?thesis by (simp add: ex)
qed

lemma tokenizeLoop_rest:
  "li \<le> length line \<Longrightarrow> tokenizeLoop line li [] = tokenizeLine (drop li line)"
  using tokenizeLoop_drop [of li 0 line "[]"] by (simp add: tokenizeLine.simps)

subsection \<open>Concatenating the texts of the tokens\<close>

text \<open>
  Claim C1, as stated, fails: the delimiters of a bold match are not part of any token,
  so the texts of the tokens of \<open>**a**\<close> give \<open>a\<close>, not the line.
\<close>

theorem tokenize_concat_counterexample:
  "concat (map ttext (tokenizeLine (str ''**a**''))) \<noteq> str ''**a**''"
  by code_simp

text \<open>
  Claim C1, amended. The concatenation of the texts of the tokens is exactly the line
  with the delimiters of its bold matches stripped, \<open>stripDelimiters line\<close>: where
  \<open>regex.exec\<close> finds no match it is the line; where it finds a match, the line is the
  text before the match, the match and the rest, a match that is not a URL is its inner
  text between two \<open>**\<close>, and the result is the text before the match, then the URL
  or the inner text of the bold match, then the stripped rest. Every other character,
  an asterisk too, stays in its place: \<open>2*3 **x**\<close> gives \<open>2*3 x\<close>. So the
  concatenation is the line itself whenever the bold alternative matches at no
  position of the line, and for every line it is the line with some characters left
  out, all of them asterisks.
\<close>

theorem tokenize_concat:
  "concat (map ttext (tokenizeLine line)) = stripDelimiters line
   \<and> (case regexExec line 0 of
        None \<Rightarrow> stripDelimiters line = line
      | Some (index, matchedText) \<Rightarrow>
          line = take index line @ matchedText @ drop (index + length matchedText) line
          \<and> (startsWith matchedText (str ''http'')
             \<or> matchedText = str ''**'' @ substring matchedText 2 (length matchedText - 2) @ str ''**'')
          \<and> stripDelimiters line =
              take index line
              @ (if startsWith matchedText (str ''http'') then matchedText
                 else substring matchedText 2 (length matchedText - 2))
              @ stripDelimiters (drop (index + length matchedText) line))
   \<and> (\<not> containsBoldPair line \<longrightarrow> concat (map ttext (tokenizeLine line)) = line)
   \<and> subseq (concat (map ttext (tokenizeLine line))) line
   \<and> filter (\<lambda>c. c \<noteq> of_char CHR ''*'') (concat (map ttext (tokenizeLine line)))
       = filter (\<lambda>c. c \<noteq> of_char CHR ''*'') line
   \<and> concat (map ttext (tokenizeLine (str ''2*3 **x**''))) = str ''2*3 x''"
proof -
  have a: "concat (map ttext (tokenizeLine line)) = stripDelimiters line"
    using texts_stripDelimiters [of line] by (simp add: texts_def)
  have b: "(case regexExec line 0 of
        None \<Rightarrow> stripDelimiters line = line
      | Some (index, matchedText) \<Rightarrow>
          line = take index line @ matchedText @ drop (index + length matchedText) line
          \<and> (startsWith matchedText (str ''http'')
             \<or> matchedText = str ''**'' @ substring matchedText 2 (length matchedText - 2) @ str ''**'')
          \<and> stripDelimiters line =
              take index line
              @ (if startsWith matchedText (str ''http'') then matchedText
                 else substring matchedText 2 (length matchedText - 2))
              @ stripDelimiters (drop (index + length matchedText) line))"
  proof (cases "regexExec line 0")
    case None
    then show ?thesis by (simp add: stripDelimiters.simps)
  next
    case (Some p)
    obtain index m where p: "p = (index, m)" by (cases p)
    note ex = Some [unfolded p]
    have 1: "line = take index line @ m @ drop (index + length m) line"
      by (rule regexExec_split [OF ex])
    have 2: "startsWith m (str ''http'') \<or> m = str ''**'' @ substring m 2 (length m - 2) @ str ''**''"
      using regexExec_bold [OF ex] by blast
    have 3: "stripDelimiters line =
              take index line
              @ (if startsWith m (str ''http'') then m else substring m 2 (length m - 2))
              @ stripDelimiters (drop (index + length m) line)"
      by (subst stripDelimiters.simps) (simp add: ex)
    from 1 2 3 show ?thesis unfolding ex by (simp only: option.case prod.case)
  qed
  have c: "\<not> containsBoldPair line \<longrightarrow> concat (map ttext (tokenizeLine line)) = line"
    using texts_no_bold [of line] by (simp add: texts_def)
  have d: "subseq (concat (map ttext (tokenizeLine line))) line"
    using texts_subseq [of line] by (simp add: texts_def)
  have e: "filter (\<lambda>c. c \<noteq> of_char CHR ''*'') (concat (map ttext (tokenizeLine line)))
       = filter (\<lambda>c. c \<noteq> of_char CHR ''*'') line"
    using texts_filter_star [of line] by (simp add: texts_def)
  have f: "concat (map ttext (tokenizeLine (str ''2*3 **x**''))) = str ''2*3 x''"
    by code_simp
  from a b c d e f show ?thesis by (intro conjI)
qed

theorem tokenize_concat_witness:
  "\<not> containsBoldPair (str ''see https://x.com now'')
   \<and> concat (map ttext (tokenizeLine (str ''see https://x.com now''))) = str ''see https://x.com now''
   \<and> stripDelimiters (str ''see https://x.com now'') = str ''see https://x.com now''"
proof -
  have h: "\<not> containsBoldPair (str ''see https://x.com now'')" by code_simp
  note t = tokenize_concat [of "str ''see https://x.com now''"]
  from t h have 1: "concat (map ttext (tokenizeLine (str ''see https://x.com now''))) = str ''see https://x.com now''"
    by blast
  from t have "concat (map ttext (tokenizeLine (str ''see https://x.com now''))) = stripDelimiters (str ''see https://x.com now'')"
    by blast
  with 1 h show ?thesis by simp
qed

subsection \<open>Bold is inherited\<close>

text \<open>
  Claim C5. At every round of the tokenizer's loop, whatever \<open>lastIndex\<close> is and
  whatever tokens have been pushed so far: when the match \<open>regex.exec\<close> finds is a bold
  match, it is the inner text between two \<open>**\<close> delimiters, and the loop gives the
  tokens pushed so far, unchanged, then the plain text before the match, then the tokens
  of the inner text, tokenized recursively, each with \<open>isBold\<close> set to true whatever
  it was, then the tokens of the rest of the line. The tokenizer is this loop from
  index 0 with no tokens, and a round of the loop is one of three: no match, a URL
  match, a bold match. For \<open>**a https://x.com b**\<close> this gives exactly three tokens,
  all bold, the middle one a link; in \<open>http://a **b**\<close> the bold match after the link
  is bold.
\<close>

theorem tokenize_bold_inherited:
  "(regexExec line lastIndex = Some (index, matchedText) \<and> \<not> startsWith matchedText (str ''http'') \<longrightarrow>
      matchedText = str ''**'' @ substring matchedText 2 (length matchedText - 2) @ str ''**''
      \<and> tokenizeLoop line lastIndex tokens =
          tokens
          @ (if index > lastIndex
             then [\<lparr>ttext = substring line lastIndex index, isBold = False, isLink = False, url = None\<rparr>]
             else [])
          @ map (\<lambda>token. token\<lparr>isBold := True\<rparr>)
              (tokenizeLine (substring matchedText 2 (length matchedText - 2)))
          @ tokenizeLine (drop (index + length matchedText) line))
   \<and> tokenizeLine line = tokenizeLoop line 0 []
   \<and> tokenizeLoop line lastIndex tokens =
       tokens
       @ (case regexExec line lastIndex of
            None \<Rightarrow>
              (if lastIndex < length line
               then [\<lparr>ttext = substringFrom line lastIndex, isBold = False, isLink = False, url = None\<rparr>]
               else [])
          | Some (i, m) \<Rightarrow>
              (if i > lastIndex
               then [\<lparr>ttext = substring line lastIndex i, isBold = False, isLink = False, url = None\<rparr>]
               else [])
              @ (if startsWith m (str ''http'')
                 then [\<lparr>ttext = m, isBold = False, isLink = True, url = Some m\<rparr>]
                 else map (\<lambda>token. token\<lparr>isBold := True\<rparr>) (tokenizeLine (substring m 2 (length m - 2))))
              @ tokenizeLoop line (i + length m) [])
   \<and> tokenizeLine (str ''**a https://x.com b**'') =
       [\<lparr>ttext = str ''a '', isBold = True, isLink = False, url = None\<rparr>,
        \<lparr>ttext = str ''https://x.com'', isBold = True, isLink = True, url = Some (str ''https://x.com'')\<rparr>,
        \<lparr>ttext = str '' b'', isBold = True, isLink = False, url = None\<rparr>]
   \<and> tokenizeLine (str ''http://a **b**'') =
       [\<lparr>ttext = str ''http://a'', isBold = False, isLink = True, url = Some (str ''http://a'')\<rparr>,
        \<lparr>ttext = str '' '', isBold = False, isLink = False, url = None\<rparr>,
        \<lparr>ttext = str ''b'', isBold = True, isLink = False, url = None\<rparr>]"
proof (intro conjI impI)
  assume a: "regexExec line lastIndex = Some (index, matchedText) \<and> \<not> startsWith matchedText (str ''http'')"
  then have ex: "regexExec line lastIndex = Some (index, matchedText)"
    and nl: "\<not> startsWith matchedText (str ''http'')" by simp_all
  show "matchedText = str ''**'' @ substring matchedText 2 (length matchedText - 2) @ str ''**''"
    by (rule regexExec_bold [OF ex nl])
  from regexExec_bounds(3) [OF ex]
  have "tokenizeLoop line (index + length matchedText) [] = tokenizeLine (drop (index + length matchedText) line)"
    by (rule tokenizeLoop_rest)
  then show "tokenizeLoop line lastIndex tokens =
          tokens
          @ (if index > lastIndex
             then [\<lparr>ttext = substring line lastIndex index, isBold = False, isLink = False, url = None\<rparr>]
             else [])
          @ map (\<lambda>token. token\<lparr>isBold := True\<rparr>)
              (tokenizeLine (substring matchedText 2 (length matchedText - 2)))
          @ tokenizeLine (drop (index + length matchedText) line)"
    using nl by (subst tokenizeLoop_round) (simp add: ex tokensBefore_def tokensOfMatch_def plainToken_def)
next
  show "tokenizeLine line = tokenizeLoop line 0 []" by (rule tokenizeLine.simps)
next
  show "tokenizeLoop line lastIndex tokens =
       tokens
       @ (case regexExec line lastIndex of
            None \<Rightarrow>
              (if lastIndex < length line
               then [\<lparr>ttext = substringFrom line lastIndex, isBold = False, isLink = False, url = None\<rparr>]
               else [])
          | Some (i, m) \<Rightarrow>
              (if i > lastIndex
               then [\<lparr>ttext = substring line lastIndex i, isBold = False, isLink = False, url = None\<rparr>]
               else [])
              @ (if startsWith m (str ''http'')
                 then [\<lparr>ttext = m, isBold = False, isLink = True, url = Some m\<rparr>]
                 else map (\<lambda>token. token\<lparr>isBold := True\<rparr>) (tokenizeLine (substring m 2 (length m - 2))))
              @ tokenizeLoop line (i + length m) [])"
    by (subst tokenizeLoop_round)
       (simp add: tokensAfter_def tokensBefore_def tokensOfMatch_def plainToken_def linkToken_def
          split: option.splits)
next
  show "tokenizeLine (str ''**a https://x.com b**'') =
       [\<lparr>ttext = str ''a '', isBold = True, isLink = False, url = None\<rparr>,
        \<lparr>ttext = str ''https://x.com'', isBold = True, isLink = True, url = Some (str ''https://x.com'')\<rparr>,
        \<lparr>ttext = str '' b'', isBold = True, isLink = False, url = None\<rparr>]"
    by code_simp
next
  show "tokenizeLine (str ''http://a **b**'') =
       [\<lparr>ttext = str ''http://a'', isBold = False, isLink = True, url = Some (str ''http://a'')\<rparr>,
        \<lparr>ttext = str '' '', isBold = False, isLink = False, url = None\<rparr>,
        \<lparr>ttext = str ''b'', isBold = True, isLink = False, url = None\<rparr>]"
    by code_simp
qed

theorem tokenize_bold_inherited_witness:
  "regexExec (str ''http://a **b**'') 8 = Some (9, str ''**b**'')
   \<and> \<not> startsWith (str ''**b**'') (str ''http'')
   \<and> str ''**b**'' = str ''**'' @ substring (str ''**b**'') 2 (length (str ''**b**'') - 2) @ str ''**''
   \<and> tokenizeLoop (str ''http://a **b**'') 8
        [\<lparr>ttext = str ''http://a'', isBold = False, isLink = True, url = Some (str ''http://a'')\<rparr>] =
          [\<lparr>ttext = str ''http://a'', isBold = False, isLink = True, url = Some (str ''http://a'')\<rparr>]
          @ (if (9::nat) > 8
             then [\<lparr>ttext = substring (str ''http://a **b**'') 8 9, isBold = False, isLink = False, url = None\<rparr>]
             else [])
          @ map (\<lambda>token. token\<lparr>isBold := True\<rparr>)
              (tokenizeLine (substring (str ''**b**'') 2 (length (str ''**b**'') - 2)))
          @ tokenizeLine (drop (9 + length (str ''**b**'')) (str ''http://a **b**''))"
proof -
  have h: "regexExec (str ''http://a **b**'') 8 = Some (9, str ''**b**'')
     \<and> \<not> startsWith (str ''**b**'') (str ''http'')"
    by code_simp
  with tokenize_bold_inherited [of "str ''http://a **b**''" 8 9 "str ''**b**''"
         "[\<lparr>ttext = str ''http://a'', isBold = False, isLink = True, url = Some (str ''http://a'')\<rparr>]"]
  show ?thesis by blast
qed

section \<open>Properties of the wrapping renderer\<close>

lemma shrink_diverges:
  assumes "\<And>t. budget < w t"
  shows "shrink w budget s i = None"
proof (rule ccontr)
  assume "shrink w budget s i \<noteq> None"
  then obtain r where "shrink w budget s i = Some r" by auto
  then have "\<exists>t. \<not> budget < w t"
    by (rule shrink.raw_induct [rotated, where P = "\<lambda>w budget s i r. \<exists>t. \<not> budget < w t"])
       (auto split: if_splits)
  with assms show False by simp
qed

lemma sample_width_nonneg: "0 \<le> sum_list (map sampleCharWidth s)"
  by (induction s) (simp_all add: sampleCharWidth_def)

lemma measureText_docText [simp]: "measureText F (docText op d) = measureText F d"
  by (rule ext) (simp add: measureText_def docText_def)

lemma sample_measure: "measureText sampleFacility d s = sum_list (map sampleCharWidth s)"
  by (simp add: measureText_def sampleFacility_def)

lemma sample_arith:
  "jsAdd sampleFacility a b = a + b" "jsSub sampleFacility a b = a - b"
  "jsMul sampleFacility a b = a * b" "jsDiv sampleFacility a b = a / b"
  by (simp_all add: jsAdd_def jsSub_def jsMul_def jsDiv_def sampleFacility_def)

lemma sample_shrink_diverges:
  "budget < 0 \<Longrightarrow> shrink (measureText sampleFacility d) budget s i = None"
proof (rule shrink_diverges)
  fix t
  assume "budget < 0"
  moreover have "0 \<le> measureText sampleFacility d t"
    by (simp add: sample_measure sample_width_nonneg)
  ultimately show "budget < measureText sampleFacility d t" by simp
qed

lemma shrink_stop: "\<not> budget < w (substring s 0 (nat i)) \<Longrightarrow> shrink w budget s i = Some i"
  by (subst shrink.simps) simp

lemma shrink_step: "budget < w (substring s 0 (nat i)) \<Longrightarrow> shrink w budget s i = shrink w budget s (i - 1)"
  by (subst shrink.simps) simp

lemma printLoop_Nil [simp]: "printLoop F token x maxWidth [] currentX currentY st = Some (currentX, currentY, st)"
  by (subst printLoop.simps) simp

lemma printLoop_diverges:
  assumes "s \<noteq> []"
    and "shrink (measureText F (doc st)) (jsSub F (jsAdd F x maxWidth) currentX) s (int (length s)) = None"
  shows "printLoop F token x maxWidth s currentX currentY st = None"
  using assms by (subst printLoop.simps) simp

lemma printLoop_forced:
  assumes "s \<noteq> []" and "\<not> isLink token" and "\<not> currentX > x"
    and "shrink (measureText F (doc st)) (jsSub F (jsAdd F x maxWidth) currentX) s (int (length s)) = Some 0"
  shows "printLoop F token x maxWidth s currentX currentY st =
         printLoop F token x maxWidth (drop 1 s) (jsAdd F currentX (measureText F (doc st) (take 1 s))) currentY
           (st\<lparr>doc := docText (DrawText (take 1 s) currentX currentY) (doc st)\<rparr>)"
  using assms
  by (subst printLoop.simps) (simp add: Let_def substring_def substringFrom_def)

subsection \<open>The renderer can hang\<close>

text \<open>
  Claim C2 fails on the code. With a measurement in which \<open>i\<close> is 1 wide and every
  other character 3 wide, and \<open>maxWidth = 2\<close> (wider than the narrowest character),
  the line \<open>WW\<close> is never finished: the first \<open>W\<close> fits nowhere and is emitted by
  force, which moves \<open>currentX\<close> past \<open>x + maxWidth\<close>; the budget of the next round
  is negative, the width of the empty prefix exceeds it, and the shrinking loop
  counts \<open>i\<close> down for ever.
\<close>

theorem renderFormattedLine_hangs:
  "getTextWidth sampleFacility 10 Normal (str ''i'') \<le> 2
   \<and> renderFormattedLine sampleFacility (str ''WW'') 0 10 2 sampleState = None"
proof -
  let ?tok = "\<lparr>ttext = str ''WW'', isBold = False, isLink = False, url = None\<rparr>"
  have tk: "tokenizeLine (str ''WW'') = [?tok]"
    by code_simp
  have sh: "shrink (measureText sampleFacility d) (jsSub sampleFacility (jsAdd sampleFacility 0 2) 0)
              (str ''WW'') (int (length (str ''WW''))) = Some 0" for d
    by (simp add: sample_arith shrink_step shrink_stop sample_measure substring_def str_def
          sampleCharWidth_def)
  have p2: "printLoop sampleFacility ?tok 0 2 (drop 1 (str ''WW''))
              (jsAdd sampleFacility 0 (measureText sampleFacility d (take 1 (str ''WW'')))) cy st = None"
    for d cy st
    by (rule printLoop_diverges)
       (simp_all add: sample_arith str_def sample_measure sampleCharWidth_def sample_shrink_diverges)
  have p1: "printLoop sampleFacility ?tok 0 2 (str ''WW'') 0 cy st = None" for cy st
  proof -
    have "printLoop sampleFacility ?tok 0 2 (str ''WW'') 0 cy st =
          printLoop sampleFacility ?tok 0 2 (drop 1 (str ''WW''))
            (jsAdd sampleFacility 0 (measureText sampleFacility (doc st) (take 1 (str ''WW'')))) cy
            (st\<lparr>doc := docText (DrawText (take 1 (str ''WW'')) 0 cy) (doc st)\<rparr>)"
      by (rule printLoop_forced) (simp add: str_def, simp, simp, rule sh)
    also have "\<dots> = None" by (rule p2)
    finally show ?thesis .
  qed
  have "getTextWidth sampleFacility 10 Normal (str ''i'') \<le> 2"
    by (simp add: sampleFacility_def sampleCharWidth_def str_def)
  then show ?thesis
    by (simp add: renderFormattedLine_def tk p1)
qed












lemma checkPageBreak_keeps [simp]:
  "drawn (doc (checkPageBreak F n st)) = drawn (doc st)"
  "inTable (checkPageBreak F n st) = inTable st"
  "tableLines (checkPageBreak F n st) = tableLines st"
  by (simp_all add: checkPageBreak_def addPage_def)

text \<open>
  Taking 5 from \<open>y\<close> and adding 5 again gives \<open>y\<close> back whenever \<open>y - 5\<close> and \<open>y\<close> are
  numbers of the machine, which the rounding leaves as they are.
\<close>

lemma roundTrip_exact:
  "roundNumber F (v - 5) = v - 5 \<Longrightarrow> roundNumber F v = v \<Longrightarrow>
   jsAdd F (jsSub F v 5) lineHeight = v"
  by (simp add: jsAdd_def jsSub_def lineHeight_def)



subsection \<open>Bullet lines\<close>




subsection \<open>The font after a call of the renderer\<close>

text \<open>
  Claim C6, as stated, fails for the weight: a caller that had set bold finds normal
  after the call.
\<close>

theorem renderFormattedLine_weight_counterexample:
  "fontStyle (doc sampleState) = Bold
   \<and> renderFormattedLine sampleFacility (str ''a'') 15 40 180 sampleState =
       Some (45, sampleState\<lparr>doc := (doc sampleState)\<lparr>fontStyle := Normal,
                                      drawn := [(1, DrawText (str ''a'') 15 40)]\<rparr>\<rparr>)"
  by code_simp

text \<open>
  Claim C6, amended. A call of \<open>renderFormattedLine\<close> that returns leaves the font
  size as it was before the call, and leaves the weight normal, whatever it was before.
\<close>

theorem renderFormattedLine_font:
  "renderFormattedLine F line x currentY maxWidth st = Some (newY, st') \<Longrightarrow>
     fontSize (doc st') = fontSize (doc st) \<and> fontStyle (doc st') = Normal"
  by (auto simp: renderFormattedLine_def Let_def split: Option.bind_splits)

theorem renderFormattedLine_font_witness:
  "renderFormattedLine sampleFacility (str ''a'') 15 40 180 sampleState =
       Some (45, sampleState\<lparr>doc := (doc sampleState)\<lparr>fontStyle := Normal,
                                      drawn := [(1, DrawText (str ''a'') 15 40)]\<rparr>\<rparr>)
   \<and> fontSize (doc (sampleState\<lparr>doc := (doc sampleState)\<lparr>fontStyle := Normal,
                                      drawn := [(1, DrawText (str ''a'') 15 40)]\<rparr>\<rparr>)) = fontSize (doc sampleState)
   \<and> fontStyle (doc (sampleState\<lparr>doc := (doc sampleState)\<lparr>fontStyle := Normal,
                                      drawn := [(1, DrawText (str ''a'') 15 40)]\<rparr>\<rparr>)) = Normal"
proof -
  have h: "renderFormattedLine sampleFacility (str ''a'') 15 40 180 sampleState =
       Some (45, sampleState\<lparr>doc := (doc sampleState)\<lparr>fontStyle := Normal,
                                      drawn := [(1, DrawText (str ''a'') 15 40)]\<rparr>\<rparr>)"
    by code_simp
  from renderFormattedLine_font [OF h] h show ?thesis by blast
qed

section \<open>Properties of the table renderer\<close>

lemma split_nonempty [simp]: "split s sep \<noteq> []"
  by (induction s) (auto split: list.splits)

lemma split_no_sep: "sep \<notin> set s \<Longrightarrow> split s sep = [s]"
  by (induction s) auto

lemma split_append_sep:
  "sep \<notin> set c \<Longrightarrow> split (c @ sep # s) sep = c # split s sep"
  by (induction c) (auto split: list.splits)

lemma split_cells:
  "\<forall>c \<in> set cells. sep \<notin> set c \<Longrightarrow>
   split (concat (map (\<lambda>c. c @ [sep]) cells)) sep = cells @ [[]]"
proof (induction cells)
  case Nil
  show ?case by simp
next
  case (Cons c cells)
  then show ?case using split_append_sep [of sep c] by simp
qed

lemma slice_1_m1: "slice xs 1 (- 1) = butlast (tl xs)"
  by (cases xs) (auto simp: slice_def sliceIndex_def Let_def butlast_conv_take)

lemma parseRow_cells:
  assumes "\<forall>c \<in> set cells. of_char CHR ''|'' \<notin> set c"
  shows "parseRow (of_char CHR ''|'' # concat (map (\<lambda>c. c @ [of_char CHR ''|'']) cells)) = map trim cells"
  using split_cells [OF assms] by (simp add: parseRow_def slice_1_m1)

lemma sliceFrom_2: "sliceFrom xs 2 = drop 2 xs"
  by (cases "2 \<le> length xs") (simp_all add: sliceFrom_def sliceIndex_def min_def)

subsection \<open>Parsing a table run\<close>

text \<open>
  Claim C3, as stated, fails for a row without a closing pipe: the code drops the last
  field of the split whether it is empty or not, so the header \<open>|A|B\<close> loses its
  cell \<open>B\<close>, where dropping the leading and trailing empty fields keeps it.
\<close>

theorem table_row_counterexample:
  "tableHead [str ''|A|B''] = Inr [[str ''A'']]
   \<and> rowAsSpecified (str ''|A|B'') = [str ''A'', str ''B'']"
  by code_simp

text \<open>
  Claim C3, amended. Line 0 of a table run is the header row, line 1 is discarded and
  lines 2 and later are the body rows; each row is split on the pipe, the first and the
  last field of the split are dropped and every remaining cell is trimmed. For a row
  written with both outer pipes the dropped fields are exactly the empty fields that
  the outer pipes give, and the cells are the trimmed texts between the pipes. For the
  four lines of the example the header is \<open>A, B\<close> and the body is \<open>1, 2\<close> and \<open>3, 4\<close>.
\<close>

theorem table_parsing:
  "tableHead (line0 # rest) = Inr [parseRow line0]
   \<and> tableBody (line0 # line1 # body) = map parseRow body
   \<and> parseRow row = map trim (butlast (tl (split row (of_char CHR ''|''))))
   \<and> ((\<forall>cell \<in> set cells. of_char CHR ''|'' \<notin> set cell) \<longrightarrow>
        parseRow (of_char CHR ''|'' # concat (map (\<lambda>cell. cell @ [of_char CHR ''|'']) cells))
          = map trim cells
        \<and> rowAsSpecified (of_char CHR ''|'' # concat (map (\<lambda>cell. cell @ [of_char CHR ''|'']) cells))
          = map trim cells)
   \<and> tableHead [str ''|A|B|'', str ''|-|-|'', str ''|1|2|'', str ''|3|4|''] = Inr [[str ''A'', str ''B'']]
   \<and> tableBody [str ''|A|B|'', str ''|-|-|'', str ''|1|2|'', str ''|3|4|'']
        = [[str ''1'', str ''2''], [str ''3'', str ''4'']]"
proof (intro conjI impI)
  show "tableHead (line0 # rest) = Inr [parseRow line0]" by (simp add: tableHead_def)
  show "tableBody (line0 # line1 # body) = map parseRow body"
    by (simp add: tableBody_def sliceFrom_2)
  show "parseRow row = map trim (butlast (tl (split row (of_char CHR ''|''))))"
    by (simp add: parseRow_def slice_1_m1)
  show "tableHead [str ''|A|B|'', str ''|-|-|'', str ''|1|2|'', str ''|3|4|''] = Inr [[str ''A'', str ''B'']]"
    by code_simp
  show "tableBody [str ''|A|B|'', str ''|-|-|'', str ''|1|2|'', str ''|3|4|'']
        = [[str ''1'', str ''2''], [str ''3'', str ''4'']]"
    by code_simp
next
  assume a: "\<forall>cell \<in> set cells. of_char CHR ''|'' \<notin> set cell"
  then show "parseRow (of_char CHR ''|'' # concat (map (\<lambda>cell. cell @ [of_char CHR ''|'']) cells)) = map trim cells"
    by (rule parseRow_cells)
  from split_cells [OF a]
  show "rowAsSpecified (of_char CHR ''|'' # concat (map (\<lambda>cell. cell @ [of_char CHR ''|'']) cells)) = map trim cells"
    by (simp add: rowAsSpecified_def dropOuterEmpty_def)
qed

theorem table_parsing_witness:
  "of_char CHR ''|'' \<notin> set (str '' A '') \<and> of_char CHR ''|'' \<notin> set (str ''B'')
   \<and> parseRow (of_char CHR ''|'' # concat (map (\<lambda>cell. cell @ [of_char CHR ''|'']) [str '' A '', str ''B'']))
        = map trim [str '' A '', str ''B'']"
proof -
  have h: "of_char CHR ''|'' \<notin> set (str '' A '') \<and> of_char CHR ''|'' \<notin> set (str ''B'')"
    by (simp add: str_def)
  then have "\<forall>cell \<in> set [str '' A '', str ''B'']. of_char CHR ''|'' \<notin> set cell"
    by simp
  with table_parsing [of _ _ _ _ _ "[str '' A '', str ''B'']"] h show ?thesis by blast
qed

section \<open>Properties of the layout engine\<close>

lemma trim_all_space: "\<forall>c \<in> set s. isSpace c \<Longrightarrow> trim s = []"
  by (auto simp: trim_def dest: set_dropWhileD)

lemma trim_append_left: "\<forall>c \<in> set ws. isSpace c \<Longrightarrow> trim (ws @ s) = trim s"
proof -
  assume "\<forall>c \<in> set ws. isSpace c"
  then have "dropWhile isSpace (ws @ s) = dropWhile isSpace s"
    by (intro dropWhile_append2) auto
  then show ?thesis by (simp add: trim_def)
qed

lemma trim_append_right:
  assumes "\<forall>c \<in> set ws. isSpace c"
  shows "trim (s @ ws) = trim s"
proof (cases "\<forall>c \<in> set s. isSpace c")
  case True
  with assms have "\<forall>c \<in> set (s @ ws). isSpace c" by auto
  then have "trim (s @ ws) = []" by (rule trim_all_space)
  with True show ?thesis by (simp add: trim_all_space)
next
  case False
  then obtain d where d: "d \<in> set s" "\<not> isSpace d" by blast
  then have "dropWhile isSpace (s @ ws) = dropWhile isSpace s @ ws"
    by (simp add: dropWhile_append1)
  moreover have "dropWhile isSpace (rev ws @ r) = dropWhile isSpace r" for r
    using assms by (intro dropWhile_append2) auto
  ultimately show ?thesis by (simp add: trim_def)
qed

lemma trim_keep_prefix:
  assumes "\<not> isSpace c" and "\<exists>d \<in> set t. \<not> isSpace d"
  shows "trim (c # p @ t) = c # p @ rev (dropWhile isSpace (rev t))"
proof -
  from assms(2) obtain d where d: "d \<in> set (rev t)" "\<not> isSpace d" by auto
  have "dropWhile isSpace (rev t @ rev p @ [c]) = dropWhile isSpace (rev t) @ rev p @ [c]"
    using d by (intro dropWhile_append1) auto
  with assms(1) show ?thesis by (simp add: trim_def)
qed

lemma trim_Cons_nonspace:
  assumes "\<not> isSpace c"
  shows "\<exists>r. trim (c # t) = c # r"
proof (cases "\<forall>d \<in> set t. isSpace d")
  case True
  then have "dropWhile isSpace (rev t @ [c]) = dropWhile isSpace [c]"
    by (intro dropWhile_append2) auto
  with assms show ?thesis by (simp add: trim_def)
next
  case False
  with trim_keep_prefix [OF assms, of t "[]"] show ?thesis by simp
qed

lemma startsWith_self_append [simp]: "startsWith (p @ r) p"
  by (simp add: startsWith_def)

lemma not_space_chars:
  "\<not> isSpace (of_char CHR ''|'')" "\<not> isSpace (of_char CHR ''#'')" "\<not> isSpace (of_char CHR ''-'')"
  by (simp_all add: isSpace_def)

subsection \<open>Lines are trimmed before they are classified\<close>

text \<open>
  Claim C10. White space around a document line changes nothing in how the line is
  processed. A line of white space only is processed as a blank line. With white space
  in front, a line that starts with a pipe is still taken as a table row, and a line
  that starts with \<open>## \<close>, \<open>### \<close> or \<open>- \<close> and has text after it is still
  processed as a heading of level 2, a heading of level 3 or a bullet.
\<close>

theorem lines_are_trimmed:
  "((\<forall>c \<in> set ws. isSpace c) \<and> (\<forall>c \<in> set ws'. isSpace c) \<longrightarrow>
      processLine F st (ws @ line @ ws') = processLine F st line)
   \<and> ((\<forall>c \<in> set blank. isSpace c) \<longrightarrow> processLine F st blank = blankLine F st)
   \<and> ((\<forall>c \<in> set ws. isSpace c) \<longrightarrow>
        processLine F st (ws @ str ''|'' @ t) = Some (Inr (tableRow (trim (str ''|'' @ t)) st)))
   \<and> ((\<forall>c \<in> set ws. isSpace c) \<and> (\<exists>c \<in> set t. \<not> isSpace c) \<longrightarrow>
        processLine F st (ws @ str ''## '' @ t) =
          andThen (flushTable F st)
            (\<lambda>st1. Some (Inr (heading2 F (trim (str ''## '' @ t)) (checkPageBreak F 10 st1))))
        \<and> processLine F st (ws @ str ''### '' @ t) =
          andThen (flushTable F st)
            (\<lambda>st1. Some (Inr (heading3 F (trim (str ''### '' @ t)) (checkPageBreak F 10 st1))))
        \<and> processLine F st (ws @ str ''- '' @ t) =
          andThen (flushTable F st)
            (\<lambda>st1. returned (bulletItem F (trim (str ''- '' @ t)) (checkPageBreak F 10 st1))))"
proof (intro conjI impI)
  assume "(\<forall>c \<in> set ws. isSpace c) \<and> (\<forall>c \<in> set ws'. isSpace c)"
  then have "trim (ws @ line @ ws') = trim line"
    by (simp add: trim_append_left trim_append_right)
  then show "processLine F st (ws @ line @ ws') = processLine F st line"
    by (simp add: processLine_def)
next
  assume "\<forall>c \<in> set blank. isSpace c"
  then show "processLine F st blank = blankLine F st"
    by (simp add: processLine_def trim_all_space)
next
  assume a: "\<forall>c \<in> set ws. isSpace c"
  have "\<exists>r. trim (of_char CHR ''|'' # t) = of_char CHR ''|'' # r"
    by (rule trim_Cons_nonspace) (rule not_space_chars)
  then obtain r where r: "trim (str ''|'' @ t) = of_char CHR ''|'' # r"
    by (auto simp: str_def)
  then have "startsWith (trim (str ''|'' @ t)) (str ''|'')"
    by (simp add: startsWith_def str_def)
  with r a show "processLine F st (ws @ str ''|'' @ t) = Some (Inr (tableRow (trim (str ''|'' @ t)) st))"
    by (simp add: processLine_def trim_append_left)
next
  assume a: "(\<forall>c \<in> set ws. isSpace c) \<and> (\<exists>c \<in> set t. \<not> isSpace c)"
  define r where "r = rev (dropWhile isSpace (rev t))"
  have h2: "trim (str ''## '' @ t) = of_char CHR ''#'' # str ''# '' @ r"
    using trim_keep_prefix [OF not_space_chars(2), of t "str ''# ''"] a
    by (simp add: r_def str_def)
  have s2: "startsWith (trim (str ''## '' @ t)) (str ''## '')"
    unfolding h2 by (simp add: startsWith_def str_def)
  have p2: "\<not> startsWith (trim (str ''## '' @ t)) (str ''|'')"
    unfolding h2 by (simp add: startsWith_def str_def)
  from a h2 s2 p2
  show "processLine F st (ws @ str ''## '' @ t) =
          andThen (flushTable F st)
            (\<lambda>st1. Some (Inr (heading2 F (trim (str ''## '' @ t)) (checkPageBreak F 10 st1))))"
    by (simp add: processLine_def trim_append_left Let_def)
  have h3: "trim (str ''### '' @ t) = of_char CHR ''#'' # str ''## '' @ r"
    using trim_keep_prefix [OF not_space_chars(2), of t "str ''## ''"] a
    by (simp add: r_def str_def)
  have s3: "startsWith (trim (str ''### '' @ t)) (str ''### '')"
    unfolding h3 by (simp add: startsWith_def str_def)
  have p3: "\<not> startsWith (trim (str ''### '' @ t)) (str ''|'')"
       "\<not> startsWith (trim (str ''### '' @ t)) (str ''## '')"
    unfolding h3 by (simp_all add: startsWith_def str_def)
  from a h3 s3 p3
  show "processLine F st (ws @ str ''### '' @ t) =
          andThen (flushTable F st)
            (\<lambda>st1. Some (Inr (heading3 F (trim (str ''### '' @ t)) (checkPageBreak F 10 st1))))"
    by (simp add: processLine_def trim_append_left Let_def)
  have hb: "trim (str ''- '' @ t) = of_char CHR ''-'' # str '' '' @ r"
    using trim_keep_prefix [OF not_space_chars(3), of t "str '' ''"] a
    by (simp add: r_def str_def)
  have sb: "startsWith (trim (str ''- '' @ t)) (str ''- '')"
    unfolding hb by (simp add: startsWith_def str_def)
  have pb: "\<not> startsWith (trim (str ''- '' @ t)) (str ''|'')"
       "\<not> startsWith (trim (str ''- '' @ t)) (str ''## '')"
       "\<not> startsWith (trim (str ''- '' @ t)) (str ''### '')"
    unfolding hb by (simp_all add: startsWith_def str_def)
  from a hb sb pb
  show "processLine F st (ws @ str ''- '' @ t) =
          andThen (flushTable F st)
            (\<lambda>st1. returned (bulletItem F (trim (str ''- '' @ t)) (checkPageBreak F 10 st1)))"
    by (simp add: processLine_def trim_append_left Let_def)
qed

theorem lines_are_trimmed_witness:
  "list_all isSpace (str ''  '') \<and> list_all isSpace (str '' '')
   \<and> (\<exists>c \<in> set (str ''Title''). \<not> isSpace c)
   \<and> processLine sampleFacility sampleState (str ''  '' @ str ''## Title'' @ str '' '') = processLine sampleFacility sampleState (str ''## Title'')
   \<and> processLine sampleFacility sampleState (str ''  '') = blankLine sampleFacility sampleState
   \<and> processLine sampleFacility sampleState (str ''  '' @ str ''|'' @ str ''Title'')
        = Some (Inr (tableRow (trim (str ''|'' @ str ''Title'')) sampleState))
   \<and> processLine sampleFacility sampleState (str ''  '' @ str ''## '' @ str ''Title'') =
          andThen (flushTable sampleFacility sampleState)
            (\<lambda>st1. Some (Inr (heading2 sampleFacility (trim (str ''## '' @ str ''Title'')) (checkPageBreak sampleFacility 10 st1))))"
proof -
  have h: "(\<forall>c \<in> set (str ''  ''). isSpace c)" "(\<forall>c \<in> set (str '' ''). isSpace c)"
    "(\<exists>c \<in> set (str ''Title''). \<not> isSpace c)"
    by (simp_all add: str_def isSpace_def)
  moreover have "list_all isSpace (str ''  '') \<and> list_all isSpace (str '' '')"
    by (simp add: str_def isSpace_def)
  ultimately show ?thesis
    using lines_are_trimmed [of "str ''  ''" "str '' ''" sampleFacility sampleState "str ''## Title''" "str ''  ''" "str ''Title''"]
    by blast
qed

section \<open>Exceptions and the table hooks\<close>

subsection \<open>Exceptions during generation\<close>

text \<open>
  Claim C7. When the body of \<open>downloadAsPdf\<close> throws, the exception is caught at the
  top: it is logged to the console, the notice \<open>An error occurred while creating the
  PDF file.\<close> is shown and no file is saved. A file is saved only when the body has
  returned normally, and an exception thrown while one line is processed ends the loop
  over the lines.
\<close>

theorem exception_is_caught:
  "(generate F reportText ticker = Some (Inl e) \<longrightarrow>
      downloadAsPdf F reportText ticker =
        Some \<lparr>saved = None,
              consoleErrors = [(str ''Failed to generate PDF:'', e)],
              notices = [str ''An error occurred while creating the PDF file.'']\<rparr>)
   \<and> (downloadAsPdf F reportText ticker = Some result \<and> saved result \<noteq> None \<longrightarrow>
        (\<exists>d. generate F reportText ticker = Some (Inr d)))
   \<and> (processLine F st line = Some (Inl e) \<longrightarrow> processLines F st (line # rest) = Some (Inl e))"
  by (auto simp: downloadAsPdf_def andThen_def split: option.splits sum.splits)

theorem exception_is_caught_witness:
  "generate sampleFacility (str ''|A|'') (str ''x'') = Some (Inl (FacilityError 0))
   \<and> downloadAsPdf sampleFacility (str ''|A|'') (str ''x'') =
        Some \<lparr>saved = None,
              consoleErrors = [(str ''Failed to generate PDF:'', FacilityError 0)],
              notices = [str ''An error occurred while creating the PDF file.'']\<rparr>"
proof -
  have h: "generate sampleFacility (str ''|A|'') (str ''x'') = Some (Inl (FacilityError 0))"
    by code_simp
  with exception_is_caught [of sampleFacility "str ''|A|''" "str ''x''" "FacilityError 0"]
  show ?thesis by blast
qed

lemma onlyText_refl [simp]: "onlyText st st"
  by (simp add: onlyText_def)

lemma onlyText_trans: "onlyText st st1 \<Longrightarrow> onlyText st1 st2 \<Longrightarrow> onlyText st st2"
  unfolding onlyText_def
proof -
  assume "\<exists>new. drawn (doc st1) = drawn (doc st) @ new \<and> (\<forall>(pg, op) \<in> set new. cellDefaultOf op = None)"
    and "\<exists>new. drawn (doc st2) = drawn (doc st1) @ new \<and> (\<forall>(pg, op) \<in> set new. cellDefaultOf op = None)"
  then obtain n1 n2 where "drawn (doc st1) = drawn (doc st) @ n1" "\<forall>(pg, op) \<in> set n1. cellDefaultOf op = None"
    "drawn (doc st2) = drawn (doc st1) @ n2" "\<forall>(pg, op) \<in> set n2. cellDefaultOf op = None"
    by blast
  then have "drawn (doc st2) = drawn (doc st) @ (n1 @ n2) \<and> (\<forall>(pg, op) \<in> set (n1 @ n2). cellDefaultOf op = None)"
    by auto
  then show "\<exists>new. drawn (doc st2) = drawn (doc st) @ new \<and> (\<forall>(pg, op) \<in> set new. cellDefaultOf op = None)"
    by blast
qed

lemma onlyText_same: "drawn (doc st') = drawn (doc st) \<Longrightarrow> onlyText st st'"
  by (simp add: onlyText_def)

lemma onlyText_checkPageBreak [simp]: "onlyText st (checkPageBreak F n st)"
  by (rule onlyText_same) (simp add: checkPageBreak_def addPage_def)

lemma onlyText_draw:
  "cellDefaultOf op = None \<Longrightarrow> onlyText st (st\<lparr>doc := docText op (doc st)\<rparr>)"
  by (simp add: onlyText_def docText_def)

lemmas printLoop_partial =
  printLoop.raw_induct [where xa = "(((((((F, token), x), maxWidth), s), currentX), currentY), st)"
    and P = "\<lambda>F token x maxWidth s currentX currentY st r. Q st r", simplified]
  for F token x maxWidth s currentX currentY st Q

lemma printLoop_onlyText_aux:
  "printLoop F token x maxWidth s currentX currentY st = Some r \<Longrightarrow> onlyText st (snd (snd r))"
proof (erule printLoop_partial [where Q = "\<lambda>st r. onlyText st (snd (snd r))", rotated], goal_cases)
  case (1 pl F token x maxWidth s currentX currentY st r)
  show ?case
  proof (cases "s = []")
    case True
    with 1(2) show ?thesis by auto
  next
    case False
    from 1(2) False obtain i where
      sh: "shrink (measureText F (doc st)) (jsSub F (jsAdd F x maxWidth) currentX) s (int (length s)) = Some i"
      by (auto split: Option.bind_splits)
    show ?thesis
    proof (cases "i = 0 \<and> x < currentX")
      case wrap: True
      from 1(2) False sh wrap obtain i' where
        sh': "shrink (measureText F (doc (checkPageBreak F lineHeight st))) maxWidth s (int (length s)) = Some i'"
        by (auto simp: Let_def split: Option.bind_splits)
      define st1 where "st1 = checkPageBreak F lineHeight st"
      define i2 where "i2 = (if i' = 0 then 1 else i')"
      define op where "op = (if isLink token
           then DrawLink (substring s 0 (nat i2)) x (jsAdd F currentY lineHeight)
                  (case url token of None \<Rightarrow> substring s 0 (nat i2)
                   | Some u \<Rightarrow> if u = [] then substring s 0 (nat i2) else u)
           else DrawText (substring s 0 (nat i2)) x (jsAdd F currentY lineHeight))"
      define st2 where "st2 = st1\<lparr>doc := docText op (doc st1)\<rparr>"
      have cd: "cellDefaultOf op = None" by (simp add: op_def cellDefaultOf_def)
      from 1(2) False sh wrap sh'
      have "pl F token x maxWidth (substringFrom s (nat i2))
              (jsAdd F x (measureText F (doc st1) (substring s 0 (nat i2)))) (jsAdd F currentY lineHeight) st2 = Some r"
        by (simp add: Let_def st1_def st2_def op_def i2_def cong: option.case_cong if_cong split: if_splits)
      from 1(1) [OF this] have "onlyText st2 (snd (snd r))" .
      moreover have "onlyText st st2"
        unfolding st2_def st1_def
        by (rule onlyText_trans [OF onlyText_checkPageBreak onlyText_draw [OF cd]])
      ultimately show ?thesis by (rule onlyText_trans [rotated])
    next
      case nowrap: False
      define i2 where "i2 = (if i = 0 then 1 else i)"
      define op where "op = (if isLink token
           then DrawLink (substring s 0 (nat i2)) currentX currentY
                  (case url token of None \<Rightarrow> substring s 0 (nat i2)
                   | Some u \<Rightarrow> if u = [] then substring s 0 (nat i2) else u)
           else DrawText (substring s 0 (nat i2)) currentX currentY)"
      define st2 where "st2 = st\<lparr>doc := docText op (doc st)\<rparr>"
      have cd: "cellDefaultOf op = None" by (simp add: op_def cellDefaultOf_def)
      from 1(2) False sh nowrap
      have "pl F token x maxWidth (substringFrom s (nat i2))
              (jsAdd F currentX (measureText F (doc st) (substring s 0 (nat i2)))) currentY st2 = Some r"
        by (simp add: Let_def st2_def op_def i2_def cong: option.case_cong if_cong split: if_splits)
      from 1(1) [OF this] have "onlyText st2 (snd (snd r))" .
      moreover have "onlyText st st2"
        unfolding st2_def by (rule onlyText_draw [OF cd])
      ultimately show ?thesis by (rule onlyText_trans [rotated])
    qed
  qed
qed

lemma printLoop_onlyText:
  "printLoop F token x maxWidth s currentX currentY st = Some (currentX', currentY', st') \<Longrightarrow>
   onlyText st st'"
  using printLoop_onlyText_aux by fastforce

lemma onlyText_font: "onlyText st (st\<lparr>doc := (doc st)\<lparr>fontStyle := a\<rparr>\<rparr>)"
  "onlyText st (st\<lparr>doc := (doc st)\<lparr>fontSize := b\<rparr>\<rparr>)"
  "onlyText st (st\<lparr>doc := (doc st)\<lparr>textColor := c\<rparr>\<rparr>)"
  by (simp_all add: onlyText_def)

lemma renderTokens_onlyText:
  "renderTokens F x maxWidth tokens currentX currentY st = Some (currentX', currentY', st') \<Longrightarrow>
   onlyText st st'"
proof (induction tokens arbitrary: currentX currentY st)
  case Nil
  then show ?case by simp
next
  case (Cons token rest)
  define st1 where "st1 = st\<lparr>doc := (doc st)\<lparr>fontStyle := (if isBold token then Bold else Normal)\<rparr>\<rparr>"
  define st2 where "st2 = (if isLink token then st1\<lparr>doc := (doc st1)\<lparr>textColor := (41, 102, 194)\<rparr>\<rparr> else st1)"
  from Cons.prems obtain cx cy st3 where
    p: "printLoop F token x maxWidth (ttext token) currentX currentY st2 = Some (cx, cy, st3)"
    and r: "renderTokens F x maxWidth rest cx cy
              (if isLink token then st3\<lparr>doc := (doc st3)\<lparr>textColor := (51, 51, 51)\<rparr>\<rparr> else st3)
            = Some (currentX', currentY', st')"
    by (auto simp: Let_def st1_def st2_def split: Option.bind_splits if_splits)
  have a: "onlyText st st2"
    by (rule onlyText_same) (simp add: st2_def st1_def)
  have b: "onlyText st2 st3" by (rule printLoop_onlyText [OF p])
  have c: "onlyText st3 (if isLink token then st3\<lparr>doc := (doc st3)\<lparr>textColor := (51, 51, 51)\<rparr>\<rparr> else st3)"
    by (simp add: onlyText_font)
  from onlyText_trans [OF onlyText_trans [OF onlyText_trans [OF a b] c] Cons.IH [OF r]]
  show ?case .
qed

lemma renderFormattedLine_onlyText:
  "renderFormattedLine F line x currentY maxWidth st = Some (newY, st') \<Longrightarrow> onlyText st st'"
proof -
  assume a: "renderFormattedLine F line x currentY maxWidth st = Some (newY, st')"
  define st1 where "st1 = st\<lparr>doc := (doc st)\<lparr>fontSize := 10\<rparr>\<rparr>"
  from a obtain cx cy st2 where
    r: "renderTokens F x maxWidth (tokenizeLine line) x currentY st1 = Some (cx, cy, st2)"
    and s: "st' = st2\<lparr>doc := (doc st2)\<lparr>fontSize := fontSize (doc st), fontStyle := Normal\<rparr>\<rparr>"
    by (auto simp: renderFormattedLine_def Let_def st1_def split: Option.bind_splits)
  have "onlyText st st1" unfolding st1_def by (rule onlyText_font)
  moreover have "onlyText st1 st2" by (rule renderTokens_onlyText [OF r])
  moreover have "onlyText st2 st'" unfolding s by (simp add: onlyText_def)
  ultimately show ?thesis by (blast intro: onlyText_trans)
qed

lemma noLinkDefault_refl [simp]: "noLinkDefault st st"
  by (simp add: noLinkDefault_def)

lemma noLinkDefault_trans: "noLinkDefault st st1 \<Longrightarrow> noLinkDefault st1 st2 \<Longrightarrow> noLinkDefault st st2"
proof -
  assume "noLinkDefault st st1" and "noLinkDefault st1 st2"
  then obtain n1 n2 where "drawn (doc st1) = drawn (doc st) @ n1"
    "\<forall>(pg, op) \<in> set n1. \<forall>raw. op = DrawCellDefault raw \<longrightarrow> \<not> hasUrlScheme raw"
    "drawn (doc st2) = drawn (doc st1) @ n2"
    "\<forall>(pg, op) \<in> set n2. \<forall>raw. op = DrawCellDefault raw \<longrightarrow> \<not> hasUrlScheme raw"
    unfolding noLinkDefault_def by blast
  then have "drawn (doc st2) = drawn (doc st) @ (n1 @ n2)
     \<and> (\<forall>(pg, op) \<in> set (n1 @ n2). \<forall>raw. op = DrawCellDefault raw \<longrightarrow> \<not> hasUrlScheme raw)"
    by auto
  then show ?thesis unfolding noLinkDefault_def by blast
qed

lemma onlyText_noLinkDefault: "onlyText st st' \<Longrightarrow> noLinkDefault st st'"
  unfolding onlyText_def noLinkDefault_def
  by (fastforce simp: cellDefaultOf_def)

lemma didDrawCell_onlyText: "didDrawCell F raw box st = Some st' \<Longrightarrow> onlyText st st'"
  by (auto simp: didDrawCell_def Let_def split: if_splits Option.bind_splits
           dest: renderFormattedLine_onlyText)

lemma autoTableCell_noLinkDefault:
  assumes "autoTableCell willDrawCell (didDrawCell F) raw box st = Some st'"
  shows "noLinkDefault st st'"
proof (cases "hasUrlScheme raw")
  case True
  with assms have "didDrawCell F raw box st = Some st'"
    by (simp add: autoTableCell_def willDrawCell_def)
  then show ?thesis by (intro onlyText_noLinkDefault didDrawCell_onlyText)
next
  case False
  define st1 where "st1 = st\<lparr>doc := docText (DrawCellDefault raw) (doc st)\<rparr>"
  from False assms have "didDrawCell F raw box st1 = Some st'"
    by (simp add: autoTableCell_def willDrawCell_def st1_def)
  then have "noLinkDefault st1 st'" by (intro onlyText_noLinkDefault didDrawCell_onlyText)
  moreover have "noLinkDefault st st1"
    using False by (simp add: noLinkDefault_def st1_def docText_def)
  ultimately show ?thesis by (rule noLinkDefault_trans [rotated])
qed

lemma autoTableRow_noLinkDefault:
  "autoTableRow willDrawCell (didDrawCell F) lay r c cells st = Some st' \<Longrightarrow> noLinkDefault st st'"
proof (induction cells arbitrary: c st)
  case Nil
  then show ?case by simp
next
  case (Cons raw cells)
  from Cons.prems obtain st1 where
    a: "autoTableCell willDrawCell (didDrawCell F) raw (boxOf lay r c) st = Some st1"
    and b: "autoTableRow willDrawCell (didDrawCell F) lay r (Suc c) cells st1 = Some st'"
    by (auto split: Option.bind_splits)
  from noLinkDefault_trans [OF autoTableCell_noLinkDefault [OF a] Cons.IH [OF b]]
  show ?case .
qed

lemma autoTableRows_noLinkDefault:
  "autoTableRows willDrawCell (didDrawCell F) lay r rows st = Some st' \<Longrightarrow> noLinkDefault st st'"
proof (induction rows arbitrary: r st)
  case Nil
  then show ?case by simp
next
  case (Cons row rows)
  from Cons.prems obtain st1 where
    a: "autoTableRow willDrawCell (didDrawCell F) lay r 0 row st = Some st1"
    and b: "autoTableRows willDrawCell (didDrawCell F) lay (Suc r) rows st1 = Some st'"
    by (auto split: Option.bind_splits)
  from noLinkDefault_trans [OF autoTableRow_noLinkDefault [OF a] Cons.IH [OF b]]
  show ?case .
qed

lemma renderTable_noLinkDefault:
  assumes "renderTable F st = Some (Inr st')"
  shows "noLinkDefault st st'"
proof -
  from assms obtain head where h: "tableHead (tableLines st) = Inr head"
    by (auto simp: renderTable_def split: sum.splits)
  define body where "body = tableBody (tableLines st)"
  define st1 where "st1 = checkPageBreak F (jsAdd F (jsMul F (of_nat (length body)) 10) 10) st"
  from assms h obtain st2 fy where
    a: "autoTable F head body (y st1) willDrawCell (didDrawCell F) st1 = Some (Inr (st2, fy))"
    and s: "st' = st2\<lparr>y := jsAdd F fy 10, inTable := False, tableLines := []\<rparr>"
    by (auto simp: renderTable_def Let_def andThen_def body_def st1_def split: option.splits sum.splits)
  from a obtain lay where "autoTableRows willDrawCell (didDrawCell F) lay 0 (head @ body) st1 = Some st2"
    by (auto simp: autoTable_def split: sum.splits option.splits)
  then have "noLinkDefault st1 st2" by (rule autoTableRows_noLinkDefault)
  moreover have "noLinkDefault st st1"
    unfolding st1_def by (intro onlyText_noLinkDefault onlyText_checkPageBreak)
  moreover have "noLinkDefault st2 st'" unfolding s by (simp add: noLinkDefault_def)
  ultimately show ?thesis by (blast intro: noLinkDefault_trans)
qed

subsection \<open>Table cells with links\<close>

text \<open>
  Claim C4. For a cell whose raw text contains \<open>http://\<close> or \<open>https://\<close> the
  will-draw hook returns \<open>false\<close>, and what the table facility does for the cell is
  exactly one call of \<open>renderFormattedLine\<close> on the raw text inside the box of the
  cell, from the did-draw hook. Whenever \<open>renderTable\<close> returns, no default draw of
  a cell with such a text is among the items it has drawn.
\<close>

theorem link_cells_bypass_default:
  "(hasUrlScheme raw \<longrightarrow>
      willDrawCell raw = Some False
      \<and> autoTableCell willDrawCell (didDrawCell F) raw box st =
          map_option snd (renderFormattedLine F raw (jsAdd F (cellX box) (padLeft box))
                            (jsAdd F (jsAdd F (cellY box) (padTop box)) 3)
                            (jsSub F (cellWidth box) (padHorizontal box)) st))
   \<and> (renderTable F st = Some (Inr st') \<longrightarrow>
        (\<exists>new. drawn (doc st') = drawn (doc st) @ new
           \<and> (\<forall>(pg, op) \<in> set new. \<forall>cellText. op = DrawCellDefault cellText \<longrightarrow> \<not> hasUrlScheme cellText)))"
proof (intro conjI impI)
  assume "hasUrlScheme raw"
  then show "willDrawCell raw = Some False" by (simp add: willDrawCell_def)
next
  assume "hasUrlScheme raw"
  then show "autoTableCell willDrawCell (didDrawCell F) raw box st =
          map_option snd (renderFormattedLine F raw (jsAdd F (cellX box) (padLeft box))
                            (jsAdd F (jsAdd F (cellY box) (padTop box)) 3)
                            (jsSub F (cellWidth box) (padHorizontal box)) st)"
    by (cases "renderFormattedLine F raw (jsAdd F (cellX box) (padLeft box))
                            (jsAdd F (jsAdd F (cellY box) (padTop box)) 3)
                            (jsSub F (cellWidth box) (padHorizontal box)) st")
       (auto simp: autoTableCell_def willDrawCell_def didDrawCell_def Let_def)
next
  assume "renderTable F st = Some (Inr st')"
  from renderTable_noLinkDefault [OF this]
  show "\<exists>new. drawn (doc st') = drawn (doc st) @ new
           \<and> (\<forall>(pg, op) \<in> set new. \<forall>cellText. op = DrawCellDefault cellText \<longrightarrow> \<not> hasUrlScheme cellText)"
    by (simp add: noLinkDefault_def)
qed

theorem link_cells_bypass_default_witness:
  "hasUrlScheme (str ''https://x.com'')
   \<and> renderTable sampleTableFacility sampleTableState =
       Some (Inr (sampleTableState\<lparr>
         doc := (doc sampleTableState)\<lparr>fontStyle := Normal, textColor := (51, 51, 51),
                  drawn := [(1, DrawCellDefault (str ''Site'')),
                            (1, DrawLink (str ''https://x.com'') 17 48 (str ''https://x.com''))]\<rparr>,
         y := 61, tableLines := [], inTable := False\<rparr>))
   \<and> willDrawCell (str ''https://x.com'') = Some False
   \<and> (\<exists>new. drawn (doc (sampleTableState\<lparr>
         doc := (doc sampleTableState)\<lparr>fontStyle := Normal, textColor := (51, 51, 51),
                  drawn := [(1, DrawCellDefault (str ''Site'')),
                            (1, DrawLink (str ''https://x.com'') 17 48 (str ''https://x.com''))]\<rparr>,
         y := 61, tableLines := [], inTable := False\<rparr>)) = drawn (doc sampleTableState) @ new
           \<and> (\<forall>(pg, op) \<in> set new. \<forall>cellText. op = DrawCellDefault cellText \<longrightarrow> \<not> hasUrlScheme cellText))"
proof -
  have h1: "hasUrlScheme (str ''https://x.com'')" by code_simp
  have h2: "renderTable sampleTableFacility sampleTableState =
       Some (Inr (sampleTableState\<lparr>
         doc := (doc sampleTableState)\<lparr>fontStyle := Normal, textColor := (51, 51, 51),
                  drawn := [(1, DrawCellDefault (str ''Site'')),
                            (1, DrawLink (str ''https://x.com'') 17 48 (str ''https://x.com''))]\<rparr>,
         y := 61, tableLines := [], inTable := False\<rparr>))"
    by code_simp
  from link_cells_bypass_default [where raw = "str ''https://x.com''" and F = sampleTableFacility
      and st = sampleTableState and box = "\<lparr>cellX = 15, cellY = 43, cellWidth = 60, padLeft = 2, padTop = 2, padHorizontal = 4\<rparr>"] h1 h2
  show ?thesis by blast
qed

section \<open>When the wrapping renderer returns\<close>

text \<open>
  The shrinking loop returns as soon as the empty prefix fits the budget, and then with
  the longest prefix that fits.
\<close>

lemma substring_0 [simp]: "substring s 0 n = take n s"
  by (simp add: substring_def)

lemma shrink_returns:
  assumes "\<not> budget < w []"
  shows "\<exists>j. shrink w budget s (int n) = Some j \<and> 0 \<le> j \<and> j \<le> int n
           \<and> \<not> budget < w (take (nat j) s)
           \<and> (\<forall>k. j < k \<and> k \<le> int n \<longrightarrow> budget < w (take (nat k) s))"
proof (induction n)
  case 0
  have "shrink w budget s 0 = Some 0"
    by (rule shrink_stop) (simp add: assms)
  with assms show ?case by auto
next
  case (Suc n)
  show ?case
  proof (cases "budget < w (take (Suc n) s)")
    case False
    then have "shrink w budget s (int (Suc n)) = Some (int (Suc n))"
      by (intro shrink_stop) (simp del: of_nat_Suc)
    moreover have "nat (int (Suc n)) = Suc n" by simp
    ultimately show ?thesis using False
      by (intro exI [of _ "int (Suc n)"]) (simp del: of_nat_Suc)
  next
    case True
    then have "shrink w budget s (int (Suc n)) = shrink w budget s (int (Suc n) - 1)"
      by (intro shrink_step) (simp del: of_nat_Suc)
    then have e: "shrink w budget s (int (Suc n)) = shrink w budget s (int n)" by simp
    from Suc.IH obtain j where j: "shrink w budget s (int n) = Some j" "0 \<le> j" "j \<le> int n"
      "\<not> budget < w (take (nat j) s)"
      "\<forall>k. j < k \<and> k \<le> int n \<longrightarrow> budget < w (take (nat k) s)"
      by blast
    have "budget < w (take (nat k) s)" if "j < k" "k \<le> int (Suc n)" for k
    proof (cases "k \<le> int n")
      case True
      with j(5) that show ?thesis by blast
    next
      case False
      with that have "nat k = Suc n" by simp
      with \<open>budget < w (take (Suc n) s)\<close> show ?thesis by simp
    qed
    with j e show ?thesis by auto
  qed
qed

lemma measureText_same_font:
  "fontSize d' = fontSize d \<Longrightarrow> fontStyle d' = fontStyle d \<Longrightarrow> measureText F d' = measureText F d"
  by (rule ext) (simp add: measureText_def)

lemma font_checkPageBreak [simp]:
  "fontSize (doc (checkPageBreak F n st)) = fontSize (doc st)"
  "fontStyle (doc (checkPageBreak F n st)) = fontStyle (doc st)"
  by (simp_all add: checkPageBreak_def addPage_def)

lemma font_docText [simp]:
  "fontSize (docText op d) = fontSize d" "fontStyle (docText op d) = fontStyle d"
  by (simp_all add: docText_def)

text \<open>
  One round of the loop over the remaining text, without and with a wrap, when a
  prefix of at least one character fits.
\<close>

lemma printLoop_step:
  assumes "s \<noteq> []"
    and "shrink (measureText F (doc st)) (jsSub F (jsAdd F x maxWidth) currentX) s (int (length s)) = Some i"
    and "i \<noteq> 0" and "0 \<le> i"
  shows "printLoop F token x maxWidth s currentX currentY st =
         printLoop F token x maxWidth (drop (nat i) s)
           (jsAdd F currentX (measureText F (doc st) (take (nat i) s))) currentY
           (st\<lparr>doc := docText
                 (if isLink token
                  then DrawLink (take (nat i) s) currentX currentY
                         (case url token of None \<Rightarrow> take (nat i) s
                          | Some u \<Rightarrow> if u = [] then take (nat i) s else u)
                  else DrawText (take (nat i) s) currentX currentY) (doc st)\<rparr>)"
  using assms
  by (subst printLoop.simps)
     (simp add: Let_def substringFrom_def cong: option.case_cong if_cong)

lemma printLoop_wrap:
  assumes "s \<noteq> []"
    and "shrink (measureText F (doc st)) (jsSub F (jsAdd F x maxWidth) currentX) s (int (length s)) = Some 0"
    and "x < currentX"
    and "shrink (measureText F (doc st)) maxWidth s (int (length s)) = Some i"
    and "i \<noteq> 0" and "0 \<le> i"
  shows "printLoop F token x maxWidth s currentX currentY st =
         printLoop F token x maxWidth (drop (nat i) s)
           (jsAdd F x (measureText F (doc st) (take (nat i) s))) (jsAdd F currentY lineHeight)
           (checkPageBreak F lineHeight st\<lparr>doc := docText
                 (if isLink token
                  then DrawLink (take (nat i) s) x (jsAdd F currentY lineHeight)
                         (case url token of None \<Rightarrow> take (nat i) s
                          | Some u \<Rightarrow> if u = [] then take (nat i) s else u)
                  else DrawText (take (nat i) s) x (jsAdd F currentY lineHeight))
                 (doc (checkPageBreak F lineHeight st))\<rparr>)"
proof -
  have m: "measureText F (doc (checkPageBreak F lineHeight st)) = measureText F (doc st)"
    by (rule measureText_same_font) simp_all
  from assms show ?thesis
    by (subst printLoop.simps)
       (simp add: Let_def substringFrom_def m cong: option.case_cong if_cong)
qed

text \<open>
  In exact arithmetic (a rounding that changes nothing): when the empty string has no
  width and every character of the text fits the full width alone, no character is
  ever emitted by force, \<open>currentX\<close> stays within the width, and the loop returns.
\<close>

lemma printLoop_returns:
  assumes "\<And>r. roundNumber F r = r"
    and "measureText F (doc st) [] \<le> 0"
    and "\<forall>c \<in> set s. measureText F (doc st) [c] \<le> maxWidth"
    and "currentX \<le> x + maxWidth"
  shows "\<exists>currentX' currentY' st'.
           printLoop F token x maxWidth s currentX currentY st = Some (currentX', currentY', st')
           \<and> currentX' \<le> x + maxWidth
           \<and> fontSize (doc st') = fontSize (doc st) \<and> fontStyle (doc st') = fontStyle (doc st)"
  using assms(2-)
proof (induction "length s" arbitrary: s currentX currentY st rule: less_induct)
  case less
  let ?w = "measureText F (doc st)"
  have ar: "jsAdd F a b = a + b" "jsSub F a b = a - b" for a b
    using assms(1) by (simp_all add: jsAdd_def jsSub_def)
  show ?case
  proof (cases "s = []")
    case True
    with less.prems show ?thesis by simp
  next
    case False
    then obtain c r where s: "s = c # r" by (cases s) auto
    from less.prems(2) s have c: "?w (take 1 s) \<le> maxWidth" by simp
    from less.prems(1,3) have b0: "\<not> x + maxWidth - currentX < ?w []" by simp
    from shrink_returns [where w = "?w" and budget = "x + maxWidth - currentX" and s = s and n = "length s", OF b0]
    obtain i where i: "shrink ?w (x + maxWidth - currentX) s (int (length s)) = Some i"
      "0 \<le> i" "i \<le> int (length s)" "\<not> x + maxWidth - currentX < ?w (take (nat i) s)"
      "\<forall>k. i < k \<and> k \<le> int (length s) \<longrightarrow> x + maxWidth - currentX < ?w (take (nat k) s)"
      by blast
    from i(1) have i1: "shrink ?w (jsSub F (jsAdd F x maxWidth) currentX) s (int (length s)) = Some i"
      by (simp add: ar)
    have rest: "\<exists>currentX' currentY' st'.
           printLoop F token x maxWidth (drop (nat j) s) cx cy st2 = Some (currentX', currentY', st')
           \<and> currentX' \<le> x + maxWidth
           \<and> fontSize (doc st') = fontSize (doc st) \<and> fontStyle (doc st') = fontStyle (doc st)"
      if j: "0 < j" and cx: "cx \<le> x + maxWidth"
        and f: "fontSize (doc st2) = fontSize (doc st)" "fontStyle (doc st2) = fontStyle (doc st)"
      for j cx cy st2
    proof -
      have m: "measureText F (doc st2) = ?w" using f by (rule measureText_same_font)
      from j False have l: "length (drop (nat j) s) < length s" by simp
      have a2: "\<forall>c \<in> set (drop (nat j) s). measureText F (doc st2) [c] \<le> maxWidth"
        using less.prems(2) m by (auto dest: in_set_dropD)
      from less.hyps [OF l _ a2 cx, of cy] less.prems(1) m f show ?thesis by simp
    qed
    show ?thesis
    proof (cases "i = 0")
      case False
      with i(2) have j: "0 < i" by simp
      from i(4) have cx: "jsAdd F currentX (?w (take (nat i) s)) \<le> x + maxWidth"
        by (simp add: ar)
      show ?thesis
        unfolding printLoop_step [OF \<open>s \<noteq> []\<close> i1 False i(2)]
        by (rule rest [OF j cx]) simp_all
    next
      case True
      from i(5) True \<open>s \<noteq> []\<close> have "x + maxWidth - currentX < ?w (take (nat 1) s)"
        by (intro i(5) [rule_format]) (cases s, auto)
      with c have lt: "x < currentX" by simp
      with less.prems(1,3) have b1: "\<not> maxWidth < ?w []" by simp
      from shrink_returns [where w = "?w" and budget = maxWidth and s = s and n = "length s", OF b1]
      obtain i' where i': "shrink ?w maxWidth s (int (length s)) = Some i'"
        "0 \<le> i'" "i' \<le> int (length s)" "\<not> maxWidth < ?w (take (nat i') s)"
        "\<forall>k. i' < k \<and> k \<le> int (length s) \<longrightarrow> maxWidth < ?w (take (nat k) s)"
        by blast
      have nz: "i' \<noteq> 0"
      proof
        assume "i' = 0"
        with \<open>s \<noteq> []\<close> have "maxWidth < ?w (take (nat 1) s)"
          by (intro i'(5) [rule_format]) (cases s, auto)
        with c show False by simp
      qed
      with i'(2) have j: "0 < i'" by simp
      from i'(4) have cx: "jsAdd F x (?w (take (nat i') s)) \<le> x + maxWidth"
        by (simp add: ar)
      show ?thesis
        unfolding printLoop_wrap [OF \<open>s \<noteq> []\<close> i1 [unfolded True] lt i'(1) nz i'(2)]
        by (rule rest [OF j cx]) simp_all
    qed
  qed
qed

lemma renderTokens_returns:
  assumes "\<And>r. roundNumber F r = r"
    and "\<forall>style. getTextWidth F (fontSize (doc st)) style [] \<le> 0"
    and "\<forall>token \<in> set tokens. \<forall>c \<in> set (ttext token).
           getTextWidth F (fontSize (doc st)) (if isBold token then Bold else Normal) [c] \<le> maxWidth"
    and "currentX \<le> x + maxWidth"
  shows "\<exists>r. renderTokens F x maxWidth tokens currentX currentY st = Some r"
  using assms(2-)
proof (induction tokens arbitrary: currentX currentY st)
  case Nil
  show ?case by simp
next
  case (Cons token rest)
  define st1 where "st1 = st\<lparr>doc := (doc st)\<lparr>fontStyle := (if isBold token then Bold else Normal)\<rparr>\<rparr>"
  define st2 where "st2 = (if isLink token then st1\<lparr>doc := (doc st1)\<lparr>textColor := (41, 102, 194)\<rparr>\<rparr> else st1)"
  have f2: "fontSize (doc st2) = fontSize (doc st)"
    "fontStyle (doc st2) = (if isBold token then Bold else Normal)"
    by (simp_all add: st2_def st1_def)
  have a1: "measureText F (doc st2) [] \<le> 0"
    using Cons.prems(1) by (simp add: measureText_def f2)
  have a2: "\<forall>c \<in> set (ttext token). measureText F (doc st2) [c] \<le> maxWidth"
    using Cons.prems(2) by (simp add: measureText_def f2)
  from printLoop_returns [OF assms(1) a1 a2 Cons.prems(3), of token currentY]
  obtain cx cy st3 where p: "printLoop F token x maxWidth (ttext token) currentX currentY st2 = Some (cx, cy, st3)"
    and cx: "cx \<le> x + maxWidth" and f3: "fontSize (doc st3) = fontSize (doc st2)"
    by blast
  define st4 where "st4 = (if isLink token then st3\<lparr>doc := (doc st3)\<lparr>textColor := (51, 51, 51)\<rparr>\<rparr> else st3)"
  have f4: "fontSize (doc st4) = fontSize (doc st)" using f3 f2 by (simp add: st4_def)
  have "\<exists>r. renderTokens F x maxWidth rest cx cy st4 = Some r"
    using Cons.prems(1,2) cx by (intro Cons.IH) (simp_all add: f4)
  moreover have "renderTokens F x maxWidth (token # rest) currentX currentY st =
                 renderTokens F x maxWidth rest cx cy st4"
    using p by (simp add: Let_def st1_def [symmetric] st2_def [symmetric] st4_def [symmetric])
  ultimately show ?case by simp
qed

text \<open>
  So, in exact arithmetic, \<open>renderFormattedLine\<close> returns for every line all of whose
  characters fit the width alone, each in the weight of its token. A character wider
  than the whole width is what the forced emission is for, and what makes the loop hang.
\<close>

lemma renderFormattedLine_returns:
  assumes "\<And>r. roundNumber F r = r"
    and "0 \<le> maxWidth"
    and "\<forall>style. getTextWidth F 10 style [] \<le> 0"
    and "\<forall>token \<in> set (tokenizeLine line). \<forall>c \<in> set (ttext token).
           getTextWidth F 10 (if isBold token then Bold else Normal) [c] \<le> maxWidth"
  shows "\<exists>r. renderFormattedLine F line x currentY maxWidth st = Some r"
proof -
  define st1 where "st1 = st\<lparr>doc := (doc st)\<lparr>fontSize := 10\<rparr>\<rparr>"
  have f: "fontSize (doc st1) = 10" by (simp add: st1_def)
  from assms(2) have cx: "x \<le> x + maxWidth" by simp
  from renderTokens_returns [OF assms(1), of st1 "tokenizeLine line" maxWidth x x currentY] assms(3,4) cx f
  obtain r where "renderTokens F x maxWidth (tokenizeLine line) x currentY st1 = Some r"
    by auto
  then show ?thesis
    by (cases r) (simp add: renderFormattedLine_def st1_def [symmetric])
qed

end
